theory Spec2Isabelle
  imports Main
begin

section \<open>The outside world: clock, cloud API, game server\<close>

text \<open>
  The manager talks to two collaborators it does not control: the DigitalOcean API
  (through the droplet object of the \<^verbatim>\<open>digitalocean\<close> library) and the
  Minecraft server (through \<^verbatim>\<open>mcstatus\<close>). Both are modelled as scripts: the
  reply to the k-th request is a function of k, and a reply of \<open>None\<close> is a raised
  exception. The wall clock counts whole seconds; \<^verbatim>\<open>time.time()\<close> and
  \<^verbatim>\<open>datetime.now()\<close> both read it and \<^verbatim>\<open>time.sleep(n)\<close> advances it.
  \<open>ApiError\<close> stands for whatever a collaborator raises, \<open>OverflowError\<close> for
  Python's exception of that name.

  Every request to a collaborator, every sleep and every write to one of the manager's
  state attributes is appended to \<open>trace\<close>, in program order. Log lines are not
  modelled.
\<close>

datatype error = ApiError | OverflowError

datatype event =
    Load
  | PowerOn
  | Shutdown
  | McStatus
  | Sleep int
  | SetLastActivity "int option"
  | SetStartupInProgress bool
  | SetServerReady bool
  | Accepted
  | HandlerStarted

record world =
  clock :: int
  trace :: "event list"
  droplet_status :: string
  api :: "nat \<Rightarrow> string option"
  api_n :: nat
  mc :: "nat \<Rightarrow> int option"
  mc_n :: nat

definition emit :: "event \<Rightarrow> world \<Rightarrow> world" where
  "emit e w = w\<lparr>trace := trace w @ [e]\<rparr>"

definition sleep :: "int \<Rightarrow> world \<Rightarrow> world" where
  "sleep n w = (emit (Sleep n) w)\<lparr>clock := clock w + n\<rparr>"

text \<open>One request to the DigitalOcean API: logged, and answered by the script.\<close>

definition api_request :: "event \<Rightarrow> world \<Rightarrow> string option \<times> world" where
  "api_request e w = (api w (api_n w), (emit e w)\<lparr>api_n := api_n w + 1\<rparr>)"

text \<open>\<^verbatim>\<open>droplet.load()\<close>: refreshes the cached status, or raises.\<close>

definition load :: "world \<Rightarrow> (error + unit) \<times> world" where
  "load w = (case api_request Load w of
       (None, w1) \<Rightarrow> (Inl ApiError, w1)
     | (Some s, w1) \<Rightarrow> (Inr (), w1\<lparr>droplet_status := s\<rparr>))"

text \<open>\<^verbatim>\<open>droplet.power_on()\<close> and \<^verbatim>\<open>droplet.shutdown()\<close>: the reply's text is ignored.\<close>

definition power_on :: "world \<Rightarrow> (error + unit) \<times> world" where
  "power_on w = (case api_request PowerOn w of
       (None, w1) \<Rightarrow> (Inl ApiError, w1)
     | (Some s, w1) \<Rightarrow> (Inr (), w1))"

definition shutdown :: "world \<Rightarrow> (error + unit) \<times> world" where
  "shutdown w = (case api_request Shutdown w of
       (None, w1) \<Rightarrow> (Inl ApiError, w1)
     | (Some s, w1) \<Rightarrow> (Inr (), w1))"

text \<open>\<^verbatim>\<open>server.status()\<close> of mcstatus: the number of players online, or raises.\<close>

definition mc_status :: "world \<Rightarrow> int option \<times> world" where
  "mc_status w = (mc w (mc_n w), (emit McStatus w)\<lparr>mc_n := mc_n w + 1\<rparr>)"

section \<open>DigitalOceanManager\<close>

definition is_running :: "world \<Rightarrow> (error + bool) \<times> world" where
  "is_running w = (case load w of
       (Inl e, w1) \<Rightarrow> (Inl e, w1)
     | (Inr u, w1) \<Rightarrow> (Inr (droplet_status w1 = ''active''), w1))"

text \<open>
  The polling loop of \<^verbatim>\<open>start_droplet\<close>, entered after \<^verbatim>\<open>power_on()\<close> at time
  \<open>start\<close>. It sits inside the method's \<^verbatim>\<open>try\<close>, so a failing \<^verbatim>\<open>load()\<close> makes the
  method return False.
\<close>

function start_droplet_poll :: "int \<Rightarrow> world \<Rightarrow> bool \<times> world" where
  "start_droplet_poll start w =
     (if clock w - start < 300 then
        (case load w of
           (Inl e, w1) \<Rightarrow> (False, w1)
         | (Inr u, w1) \<Rightarrow>
             if droplet_status w1 = ''active'' then (True, sleep 30 w1)
             else start_droplet_poll start (sleep 5 w1))
      else (False, w))"
  by pat_completeness auto

lemma clock_load: "load w = (r, w1) \<Longrightarrow> clock w1 = clock w"
  by (auto simp: load_def api_request_def emit_def split: option.splits)

lemma clock_sleep: "clock (sleep n w) = clock w + n"
  by (simp add: sleep_def emit_def)

termination start_droplet_poll
proof (relation "measure (\<lambda>(start, w). nat (start + 300 - clock w))")
  show "wf (measure (\<lambda>(start, w). nat (start + 300 - clock w)))"
    by simp
next
  fix start :: int and w :: world and x :: "error + unit" and y :: world and u :: unit
  assume a: "clock w - start < 300" and b: "(x, y) = load w"
  have "clock y = clock w"
    using clock_load [OF b [symmetric]] .
  with a show "((start, sleep 5 y), (start, w))
      \<in> measure (\<lambda>(start, w). nat (start + 300 - clock w))"
    by (simp add: clock_sleep)
qed

definition start_droplet :: "world \<Rightarrow> (error + bool) \<times> world" where
  "start_droplet w = (case load w of
       (Inl e, w1) \<Rightarrow> (Inl e, w1)
     | (Inr u, w1) \<Rightarrow>
         if droplet_status w1 = ''active'' then (Inr True, w1)
         else (case power_on w1 of
                 (Inl e, w2) \<Rightarrow> (Inr False, w2)
               | (Inr u, w2) \<Rightarrow>
                   (case start_droplet_poll (clock w2) w2 of (b, w3) \<Rightarrow> (Inr b, w3))))"

definition stop_droplet :: "world \<Rightarrow> (error + bool) \<times> world" where
  "stop_droplet w = (case load w of
       (Inl e, w1) \<Rightarrow> (Inl e, w1)
     | (Inr u, w1) \<Rightarrow>
         if droplet_status w1 = ''off'' then (Inr True, w1)
         else (case shutdown w1 of
                 (Inl e, w2) \<Rightarrow> (Inr False, w2)
               | (Inr u, w2) \<Rightarrow> (Inr True, w2)))"

section \<open>MinecraftMonitor\<close>

definition is_server_online :: "world \<Rightarrow> bool \<times> world" where
  "is_server_online w = (case mc_status w of
       (None, w1) \<Rightarrow> (False, w1)
     | (Some n, w1) \<Rightarrow> (True, w1))"

definition get_player_count :: "world \<Rightarrow> int option \<times> world" where
  "get_player_count w = mc_status w"

function wait_for_server_ready_loop :: "int \<Rightarrow> int \<Rightarrow> world \<Rightarrow> bool \<times> world" where
  "wait_for_server_ready_loop timeout start w =
     (if clock w - start < timeout then
        (case is_server_online w of
           (True, w1) \<Rightarrow> (True, w1)
         | (False, w1) \<Rightarrow> wait_for_server_ready_loop timeout start (sleep 5 w1))
      else (False, w))"
  by pat_completeness auto

lemma clock_is_server_online: "is_server_online w = (r, w1) \<Longrightarrow> clock w1 = clock w"
  by (auto simp: is_server_online_def mc_status_def emit_def split: option.splits)

termination wait_for_server_ready_loop
proof (relation "measure (\<lambda>(timeout, start, w). nat (start + timeout - clock w))")
  show "wf (measure (\<lambda>(timeout, start, w). nat (start + timeout - clock w)))"
    by simp
next
  fix timeout start :: int and w :: world and x :: bool and y :: world
  assume a: "clock w - start < timeout" and b: "(x, y) = is_server_online w"
  have "clock y = clock w"
    using clock_is_server_online [OF b [symmetric]] .
  with a show "((timeout, start, sleep 5 y), (timeout, start, w))
      \<in> measure (\<lambda>(timeout, start, w). nat (start + timeout - clock w))"
    by (simp add: clock_sleep)
qed

definition wait_for_server_ready :: "world \<Rightarrow> bool \<times> world" where
  "wait_for_server_ready w = wait_for_server_ready_loop 180 (clock w) w"

section \<open>TCPProxy: the connection counter and the session handler\<close>

text \<open>
  The proxy's own attributes: \<open>proxy_running\<close> is \<^verbatim>\<open>TCPProxy.running\<close> (the manager
  has an attribute of the same name) and \<open>active_connections\<close> is the counter that
  session handlers update under \<^verbatim>\<open>connection_lock\<close>.
\<close>

record tcp_proxy =
  proxy_running :: bool
  active_connections :: int

definition get_active_connections :: "tcp_proxy \<Rightarrow> int" where
  "get_active_connections p = active_connections p"

text \<open>
  \<^verbatim>\<open>_handle_connection\<close> runs on a thread of its own, one per accepted connection, so
  it is modelled as a small machine that a scheduler steps. A step is what the thread does
  between two points where another thread may run; the two updates of the counter are
  each one step, since they are made with \<^verbatim>\<open>connection_lock\<close> held. The positions:

  \<^item> \<open>AtEntry\<close>: the thread exists, nothing has run yet;
  \<^item> \<open>AtReadyCheck\<close>: the counter has been incremented, next is the readiness callback;
  \<^item> \<open>AtConnect\<close>: the backend socket is created, next is \<^verbatim>\<open>connect\<close>;
  \<^item> \<open>AtRelay\<close>: connected, next is \<^verbatim>\<open>_proxy_data\<close>;
  \<^item> \<open>AtFinally\<close>: the \<^verbatim>\<open>try\<close> body is left, next is the closing of the sockets;
  \<^item> \<open>AtDecrement\<close>: sockets closed, next is the decrement;
  \<^item> \<open>Finished\<close>.

  \<open>server_socket\<close> is \<open>NotCreated\<close> while the variable holds None. The fields
  \<open>increments\<close> and \<open>decrements\<close> count the thread's own updates of the counter;
  the program does not have them.
\<close>

datatype socket = NotCreated | Open | Closed

datatype position =
  AtEntry | AtReadyCheck | AtConnect | AtRelay | AtFinally | AtDecrement | Finished

record session =
  position :: position
  client_socket :: socket
  server_socket :: socket
  increments :: nat
  decrements :: nat

text \<open>
  What the operation at the current position does: \<open>Succeeds\<close> (the callback returns
  True or is absent, \<^verbatim>\<open>connect\<close> connects, \<^verbatim>\<open>_proxy_data\<close> returns), \<open>Refuses\<close>
  (the callback returns False, \<^verbatim>\<open>connect\<close> raises and the inner \<^verbatim>\<open>except\<close> closes the
  client socket) or \<open>Raises\<close> (an exception reaches the outer \<^verbatim>\<open>except\<close>).
\<close>

datatype outcome = Succeeds | Refuses | Raises

definition close_socket :: "socket \<Rightarrow> socket" where
  "close_socket s = (if s = NotCreated then NotCreated else Closed)"

fun handle_connection_step :: "outcome \<Rightarrow> session \<Rightarrow> tcp_proxy \<Rightarrow> session \<times> tcp_proxy" where
  "handle_connection_step out t p =
     (case position t of
        AtEntry \<Rightarrow>
          (t\<lparr>position := AtReadyCheck, increments := increments t + 1\<rparr>,
           p\<lparr>active_connections := active_connections p + 1\<rparr>)
      | AtReadyCheck \<Rightarrow>
          (case out of
             Succeeds \<Rightarrow> (t\<lparr>position := AtConnect, server_socket := Open\<rparr>, p)
           | Refuses \<Rightarrow> (t\<lparr>position := AtFinally, client_socket := Closed\<rparr>, p)
           | Raises \<Rightarrow> (t\<lparr>position := AtFinally\<rparr>, p))
      | AtConnect \<Rightarrow>
          (case out of
             Succeeds \<Rightarrow> (t\<lparr>position := AtRelay\<rparr>, p)
           | Refuses \<Rightarrow> (t\<lparr>position := AtFinally, client_socket := Closed\<rparr>, p)
           | Raises \<Rightarrow> (t\<lparr>position := AtFinally, client_socket := Closed\<rparr>, p))
      | AtRelay \<Rightarrow> (t\<lparr>position := AtFinally\<rparr>, p)
      | AtFinally \<Rightarrow>
          (t\<lparr>position := AtDecrement, client_socket := close_socket (client_socket t),
             server_socket := close_socket (server_socket t)\<rparr>, p)
      | AtDecrement \<Rightarrow>
          (t\<lparr>position := Finished, decrements := decrements t + 1\<rparr>,
           p\<lparr>active_connections := active_connections p - 1\<rparr>)
      | Finished \<Rightarrow> (t, p))"

text \<open>
  The proxy with its session threads. The scheduler either lets the listener start a
  thread for a newly accepted connection or lets the i-th thread take its next step; a
  schedule is any list of such choices, so it stands for any interleaving of any number
  of sessions.
\<close>

record proxy_system =
  proxy :: tcp_proxy
  sessions :: "session list"

datatype choice = Spawn | Step nat outcome

definition new_session :: session where
  "new_session = \<lparr>position = AtEntry, client_socket = Open, server_socket = NotCreated,
     increments = 0, decrements = 0\<rparr>"

definition new_proxy :: tcp_proxy where
  "new_proxy = \<lparr>proxy_running = False, active_connections = 0\<rparr>"

definition new_system :: proxy_system where
  "new_system = \<lparr>proxy = new_proxy, sessions = []\<rparr>"

fun schedule_step :: "choice \<Rightarrow> proxy_system \<Rightarrow> proxy_system" where
  "schedule_step Spawn s = s\<lparr>sessions := sessions s @ [new_session]\<rparr>"
| "schedule_step (Step i out) s =
     (if i < length (sessions s) then
        (case handle_connection_step out (sessions s ! i) (proxy s) of
           (t, p) \<Rightarrow> s\<lparr>proxy := p, sessions := (sessions s)[i := t]\<rparr>)
      else s)"

fun run_schedule :: "choice list \<Rightarrow> proxy_system \<Rightarrow> proxy_system" where
  "run_schedule [] s = s"
| "run_schedule (c # cs) s = run_schedule cs (schedule_step c s)"

text \<open>One session run on its own: its steps, with the outcomes given.\<close>

fun run_session :: "outcome list \<Rightarrow> session \<Rightarrow> tcp_proxy \<Rightarrow> session \<times> tcp_proxy" where
  "run_session [] t p = (t, p)"
| "run_session (out # outs) t p =
     (case handle_connection_step out t p of (t1, p1) \<Rightarrow> run_session outs t1 p1)"

text \<open>The number of steps a session at a position has still to take, at most.\<close>

fun steps_left :: "position \<Rightarrow> nat" where
  "steps_left AtEntry = 6"
| "steps_left AtReadyCheck = 5"
| "steps_left AtConnect = 4"
| "steps_left AtRelay = 3"
| "steps_left AtFinally = 2"
| "steps_left AtDecrement = 1"
| "steps_left Finished = 0"

text \<open>
  A session is in flight from its increment until its decrement. That is later than
  accepted: a thread is started for a connection after \<^verbatim>\<open>accept()\<close> and the
  on-connect callback, and the session is not in flight before the thread has run its
  first statement. \<open>accepted_open\<close> counts the sessions that have a thread and are not
  finished.
\<close>

definition in_flight :: "session \<Rightarrow> bool" where
  "in_flight t \<longleftrightarrow> position t \<noteq> AtEntry \<and> position t \<noteq> Finished"

definition accepted_open :: "proxy_system \<Rightarrow> nat" where
  "accepted_open s = length (filter (\<lambda>t. position t \<noteq> Finished) (sessions s))"

text \<open>
  What holds of every session at every point: it has incremented the counter once unless
  it has not started, it has decremented it once if and only if it has finished, and when
  it stands at the decrement or behind it, no socket of it is open.
\<close>

definition session_ok :: "session \<Rightarrow> bool" where
  "session_ok t \<longleftrightarrow>
     increments t = (if position t = AtEntry then 0 else 1) \<and>
     decrements t = (if position t = Finished then 1 else 0) \<and>
     client_socket t \<noteq> NotCreated \<and>
     (position t = AtDecrement \<or> position t = Finished \<longrightarrow>
        client_socket t = Closed \<and> server_socket t \<noteq> Open)"

text \<open>What a session contributes to the counter.\<close>

definition flying :: "session \<Rightarrow> int" where
  "flying t = (if in_flight t then 1 else 0)"

text \<open>The counter agrees with the sessions, and every session is in order.\<close>

definition system_ok :: "proxy_system \<Rightarrow> bool" where
  "system_ok s \<longleftrightarrow>
     active_connections (proxy s) = int (length (filter in_flight (sessions s))) \<and>
     (\<forall>t \<in> set (sessions s). session_ok t)"

section \<open>MCServerManager\<close>

text \<open>
  The manager's own attributes. \<open>last_activity_time\<close> is a clock reading or None;
  \<open>inactivity_timeout\<close> is in minutes.
\<close>

record manager =
  inactivity_timeout :: int
  tcp_proxy :: tcp_proxy
  last_activity_time :: "int option"
  startup_in_progress :: bool
  running :: bool
  server_ready :: bool

text \<open>The state \<^verbatim>\<open>__init__\<close> leaves, for a configured timeout.\<close>

definition init_manager :: "int \<Rightarrow> manager" where
  "init_manager timeout = \<lparr>inactivity_timeout = timeout, tcp_proxy = new_proxy,
     last_activity_time = None, startup_in_progress = False, running = True,
     server_ready = False\<rparr>"

text \<open>Attribute writes: the new value is stored and the write is logged.\<close>

definition set_last_activity :: "int option \<Rightarrow> manager \<times> world \<Rightarrow> manager \<times> world" where
  "set_last_activity v mw =
     ((fst mw)\<lparr>last_activity_time := v\<rparr>, emit (SetLastActivity v) (snd mw))"

definition set_startup_in_progress :: "bool \<Rightarrow> manager \<times> world \<Rightarrow> manager \<times> world" where
  "set_startup_in_progress v mw =
     ((fst mw)\<lparr>startup_in_progress := v\<rparr>, emit (SetStartupInProgress v) (snd mw))"

definition set_server_ready :: "bool \<Rightarrow> manager \<times> world \<Rightarrow> manager \<times> world" where
  "set_server_ready v mw =
     ((fst mw)\<lparr>server_ready := v\<rparr>, emit (SetServerReady v) (snd mw))"

text \<open>
  \<^verbatim>\<open>start_server\<close>, in its two parts. \<open>start_server_enter\<close> is the method up to
  the \<^verbatim>\<open>try\<close>: None when the call is skipped because a start is in progress, else
  the state in which \<^verbatim>\<open>start_droplet\<close> is about to be called, with the flag set.
  \<open>start_server_attempt\<close> is the \<^verbatim>\<open>try\<close> with its \<^verbatim>\<open>finally\<close>:
  \<^verbatim>\<open>start_droplet\<close> runs, and the flag is cleared whether it returned or raised.
\<close>

definition start_server_enter :: "manager \<Rightarrow> world \<Rightarrow> (manager \<times> world) option" where
  "start_server_enter m w =
     (if startup_in_progress m then None
      else Some (set_server_ready False (set_startup_in_progress True (m, w))))"

definition start_server_attempt :: "manager \<Rightarrow> world \<Rightarrow> (error + unit) \<times> manager \<times> world" where
  "start_server_attempt m1 w1 =
     (case start_droplet w1 of (r, w2) \<Rightarrow>
        (case set_startup_in_progress False (m1, w2) of (m2, w3) \<Rightarrow>
           (case r of Inl e \<Rightarrow> (Inl e, m2, w3) | Inr success \<Rightarrow> (Inr (), m2, w3))))"

definition start_server :: "manager \<Rightarrow> world \<Rightarrow> (error + unit) \<times> manager \<times> world" where
  "start_server m w =
     (case start_server_enter m w of
        None \<Rightarrow> (Inr (), m, w)
      | Some (m1, w1) \<Rightarrow> start_server_attempt m1 w1)"

text \<open>The on-connect hook the proxy is given.\<close>

definition on_connection_attempt :: "manager \<Rightarrow> world \<Rightarrow> (error + unit) \<times> manager \<times> world" where
  "on_connection_attempt m w =
     (case set_last_activity (Some (clock w)) (m, w) of (m1, w1) \<Rightarrow>
        (case is_running w1 of
           (Inl e, w2) \<Rightarrow> (Inl e, m1, w2)
         | (Inr False, w2) \<Rightarrow>
             (case set_server_ready False (m1, w2) of (m2, w3) \<Rightarrow> start_server m2 w3)
         | (Inr True, w2) \<Rightarrow> (Inr (), m1, w2)))"

text \<open>
  The first loop of \<^verbatim>\<open>ensure_server_ready\<close>: poll \<^verbatim>\<open>is_running\<close> every five
  seconds for at most \<open>max_wait = 300\<close> seconds after \<open>start\<close>. A raising
  \<^verbatim>\<open>is_running\<close> leaves the method.
\<close>

function wait_for_droplet :: "int \<Rightarrow> world \<Rightarrow> (error + unit) \<times> world" where
  "wait_for_droplet start w =
     (if clock w - start < 300 then
        (case is_running w of
           (Inl e, w1) \<Rightarrow> (Inl e, w1)
         | (Inr True, w1) \<Rightarrow> (Inr (), w1)
         | (Inr False, w1) \<Rightarrow> wait_for_droplet start (sleep 5 w1))
      else (Inr (), w))"
  by pat_completeness auto

lemma clock_is_running: "is_running w = (r, w1) \<Longrightarrow> clock w1 = clock w"
  by (auto simp: is_running_def split: prod.splits sum.splits dest: clock_load)

termination wait_for_droplet
proof (relation "measure (\<lambda>(start, w). nat (start + 300 - clock w))")
  show "wf (measure (\<lambda>(start, w). nat (start + 300 - clock w)))"
    by simp
next
  fix start :: int and w :: world and x :: "error + bool" and y :: world
  assume a: "clock w - start < 300" and b: "(x, y) = is_running w"
  have "clock y = clock w"
    using clock_is_running [OF b [symmetric]] .
  with a show "((start, sleep 5 y), (start, w))
      \<in> measure (\<lambda>(start, w). nat (start + 300 - clock w))"
    by (simp add: clock_sleep)
qed

definition ensure_server_ready :: "manager \<Rightarrow> world \<Rightarrow> (error + bool) \<times> manager \<times> world" where
  "ensure_server_ready m w =
     (if server_ready m then (Inr True, m, w)
      else
        (case wait_for_droplet (clock w) w of
           (Inl e, w1) \<Rightarrow> (Inl e, m, w1)
         | (Inr u, w1) \<Rightarrow>
             (case is_running w1 of
                (Inl e, w2) \<Rightarrow> (Inl e, m, w2)
              | (Inr False, w2) \<Rightarrow> (Inr False, m, w2)
              | (Inr True, w2) \<Rightarrow>
                  (case wait_for_server_ready w2 of
                     (True, w3) \<Rightarrow>
                       (case set_last_activity (Some (clock w3))
                               (set_server_ready True (m, w3)) of
                          (m1, w4) \<Rightarrow> (Inr True, m1, w4))
                   | (False, w3) \<Rightarrow> (Inr False, m, w3)))))"

text \<open>
  \<^verbatim>\<open>check_inactivity\<close> returns nothing in the source; each of its branches ends in
  its own log line. The model returns the branch taken, so that the decision of a tick can
  be read off: \<open>StillIdle r\<close> carries the remaining time in seconds,
  \<open>timeout_duration - inactive_duration\<close>. The two places where the source builds a
  \<^verbatim>\<open>timedelta\<close> that may be out of range raise.
\<close>

text \<open>
  Durations are Python's \<^verbatim>\<open>timedelta\<close>, here in whole seconds. A
  \<^verbatim>\<open>timedelta\<close> lies between -999999999 days and 999999999 days 23:59:59; building
  one outside this range, by the constructor or by subtraction, raises
  \<^verbatim>\<open>OverflowError\<close>. The difference of two readings of the clock is always in range.
\<close>

definition timedelta_ok :: "int \<Rightarrow> bool" where
  "timedelta_ok seconds \<longleftrightarrow> - 86399999913600 \<le> seconds \<and> seconds \<le> 86399999999999"

definition timedelta :: "int \<Rightarrow> error + int" where
  "timedelta seconds = (if timedelta_ok seconds then Inr seconds else Inl OverflowError)"

datatype tick =
    DropletNotRunning
  | ConnectionsActive
  | ServerNotResponding
  | PlayerCountUnknown
  | PlayersOnline
  | TimerStarted
  | ShutDown
  | StillIdle int

definition check_inactivity :: "manager \<Rightarrow> world \<Rightarrow> (error + tick) \<times> manager \<times> world" where
  "check_inactivity m w =
     (case is_running w of
        (Inl e, w1) \<Rightarrow> (Inl e, m, w1)
      | (Inr False, w1) \<Rightarrow>
          (case set_server_ready False (m, w1) of (m1, w2) \<Rightarrow> (Inr DropletNotRunning, m1, w2))
      | (Inr True, w1) \<Rightarrow>
          if get_active_connections (tcp_proxy m) > 0 then
            (case set_last_activity (Some (clock w1)) (m, w1) of
               (m1, w2) \<Rightarrow> (Inr ConnectionsActive, m1, w2))
          else
            (case is_server_online w1 of
               (False, w2) \<Rightarrow> (Inr ServerNotResponding, m, w2)
             | (True, w2) \<Rightarrow>
                 (case get_player_count w2 of
                    (None, w3) \<Rightarrow> (Inr PlayerCountUnknown, m, w3)
                  | (Some player_count, w3) \<Rightarrow>
                      if player_count > 0 then
                        (case set_last_activity (Some (clock w3)) (m, w3) of
                           (m1, w4) \<Rightarrow> (Inr PlayersOnline, m1, w4))
                      else
                        (case last_activity_time m of
                           None \<Rightarrow>
                             (case set_last_activity (Some (clock w3)) (m, w3) of
                                (m1, w4) \<Rightarrow> (Inr TimerStarted, m1, w4))
                         | Some since \<Rightarrow>
                             (case timedelta (60 * inactivity_timeout m) of
                                Inl e \<Rightarrow> (Inl e, m, w3)
                              | Inr timeout_duration \<Rightarrow>
                                  if clock w3 - since \<ge> timeout_duration then
                                    (case stop_droplet w3 of
                                       (Inl e, w4) \<Rightarrow> (Inl e, m, w4)
                                     | (Inr stopped, w4) \<Rightarrow>
                                         (case set_server_ready False
                                                 (set_last_activity None (m, w4)) of
                                            (m1, w5) \<Rightarrow> (Inr ShutDown, m1, w5)))
                                  else
                                    (case timedelta (timeout_duration - (clock w3 - since)) of
                                       Inl e \<Rightarrow> (Inl e, m, w3)
                                     | Inr remaining \<Rightarrow>
                                         (Inr (StillIdle remaining), m, w3)))))))"

section \<open>The accept loop\<close>

text \<open>
  One pass of the loop of \<^verbatim>\<open>_listen\<close> in which \<^verbatim>\<open>accept()\<close> returns a connection:
  the on-connect callback, when there is one, runs to its end on the listener's thread,
  and only then is the session's thread started. An exception of the callback is caught
  by the loop's \<^verbatim>\<open>except Exception\<close>, and no thread is started. The result says
  whether the thread was started.
\<close>

type_synonym hook = "manager \<Rightarrow> world \<Rightarrow> (error + unit) \<times> manager \<times> world"

definition listen_iteration :: "hook option \<Rightarrow> manager \<Rightarrow> world \<Rightarrow> bool \<times> manager \<times> world" where
  "listen_iteration on_connection_callback m w =
     (case on_connection_callback of
        None \<Rightarrow> (True, m, emit HandlerStarted (emit Accepted w))
      | Some callback \<Rightarrow>
          (case callback m (emit Accepted w) of
             (Inl e, m1, w1) \<Rightarrow> (False, m1, w1)
           | (Inr u, m1, w1) \<Rightarrow> (True, m1, emit HandlerStarted w1)))"

section \<open>The dashboard's start and stop\<close>

text \<open>
  The handlers of \<^verbatim>\<open>/api/start\<close> and \<^verbatim>\<open>/api/stop\<close> in the web module
  (there \<^verbatim>\<open>start_server\<close> and \<^verbatim>\<open>stop_server\<close>; the first is renamed, the
  manager has a method of that name). \<open>manager_instance\<close> may be None. The response is
  the JSON body's two fields and the HTTP status.
\<close>

datatype message =
    ManagerNotInitialized
  | AlreadyRunning
  | StartInitiated
  | AlreadyStopped
  | ShutdownInitiated
  | ErrorText error

record response =
  success :: bool
  message :: message
  http_status :: nat

definition jsonify :: "bool \<Rightarrow> message \<Rightarrow> nat \<Rightarrow> response" where
  "jsonify ok msg code = \<lparr>success = ok, message = msg, http_status = code\<rparr>"

definition web_start_server :: "manager option \<Rightarrow> world \<Rightarrow> response \<times> manager option \<times> world" where
  "web_start_server manager_instance w =
     (case manager_instance of
        None \<Rightarrow> (jsonify False ManagerNotInitialized 500, None, w)
      | Some m \<Rightarrow>
          (case is_running w of
             (Inl e, w1) \<Rightarrow> (jsonify False (ErrorText e) 500, Some m, w1)
           | (Inr True, w1) \<Rightarrow> (jsonify False AlreadyRunning 200, Some m, w1)
           | (Inr False, w1) \<Rightarrow>
               (case start_server m w1 of
                  (Inl e, m1, w2) \<Rightarrow> (jsonify False (ErrorText e) 500, Some m1, w2)
                | (Inr u, m1, w2) \<Rightarrow> (jsonify True StartInitiated 200, Some m1, w2))))"

definition stop_server :: "manager option \<Rightarrow> world \<Rightarrow> response \<times> manager option \<times> world" where
  "stop_server manager_instance w =
     (case manager_instance of
        None \<Rightarrow> (jsonify False ManagerNotInitialized 500, None, w)
      | Some m \<Rightarrow>
          (case is_running w of
             (Inl e, w1) \<Rightarrow> (jsonify False (ErrorText e) 500, Some m, w1)
           | (Inr False, w1) \<Rightarrow> (jsonify False AlreadyStopped 200, Some m, w1)
           | (Inr True, w1) \<Rightarrow>
               (case stop_droplet w1 of
                  (Inl e, w2) \<Rightarrow> (jsonify False (ErrorText e) 500, Some m, w2)
                | (Inr stopped, w2) \<Rightarrow>
                    (case set_last_activity None (set_server_ready False (m, w2)) of
                       (m1, w3) \<Rightarrow> (jsonify True ShutdownInitiated 200, Some m1, w3)))))"

section \<open>Worlds and traces\<close>

text \<open>
  A world at time \<open>t\<close> in which nothing has happened yet, with the given scripts for
  the cloud API and the game server.
\<close>

definition script_world :: "int \<Rightarrow> (nat \<Rightarrow> string option) \<Rightarrow> (nat \<Rightarrow> int option) \<Rightarrow> world" where
  "script_world t a q = \<lparr>clock = t, trace = [], droplet_status = ''off'', api = a, api_n = 0,
     mc = q, mc_n = 0\<rparr>"

text \<open>
  \<open>adds S w w'\<close>: the run from \<open>w\<close> to \<open>w'\<close> kept the trace of \<open>w\<close> and appended
  events of \<open>S\<close> only.
\<close>

definition adds :: "event set \<Rightarrow> world \<Rightarrow> world \<Rightarrow> bool" where
  "adds S w w' \<longleftrightarrow>
     take (length (trace w)) (trace w') = trace w \<and>
     set (drop (length (trace w)) (trace w')) \<subseteq> S"

text \<open>The events a call of \<open>ensure_server_ready\<close> can add.\<close>

definition polling_events :: "event set" where
  "polling_events = {Load, McStatus, SetServerReady True} \<union> range Sleep \<union> range SetLastActivity"

subsection \<open>Scripts and states used as examples\<close>

text \<open>Scripts for the cloud API and for the game server.\<close>

definition always_off :: "nat \<Rightarrow> string option" where
  "always_off k = Some ''off''"

definition always_active :: "nat \<Rightarrow> string option" where
  "always_active k = Some ''active''"

definition no_reply :: "nat \<Rightarrow> int option" where
  "no_reply k = None"

definition nobody_online :: "nat \<Rightarrow> int option" where
  "nobody_online k = Some 0"


text \<open>The manager after \<^verbatim>\<open>__init__\<close>, with the last activity seen at time \<open>t\<close>.\<close>

definition idle_since :: "int \<Rightarrow> manager" where
  "idle_since t = (init_manager 15)\<lparr>last_activity_time := Some t\<rparr>"


definition power_on_refused :: "nat \<Rightarrow> string option" where
  "power_on_refused k = (if k = 2 \<or> k = 5 then None else Some ''off'')"

text \<open>
  Two connections: the first is refused by the readiness callback and runs to its end,
  the second connects to the backend and is relaying.
\<close>

definition two_sessions :: "choice list" where
  "two_sessions = [Spawn, Spawn, Step 0 Succeeds, Step 1 Succeeds, Step 0 Refuses,
     Step 1 Succeeds, Step 0 Succeeds, Step 1 Succeeds, Step 0 Succeeds]"

section \<open>Facts about traces\<close>

lemma adds_iff: "adds S w w' \<longleftrightarrow> (\<exists>es. trace w' = trace w @ es \<and> set es \<subseteq> S)"
proof
  assume "adds S w w'"
  then have "trace w' = trace w @ drop (length (trace w)) (trace w')"
    and "set (drop (length (trace w)) (trace w')) \<subseteq> S"
    unfolding adds_def by (metis append_take_drop_id, simp)
  then show "\<exists>es. trace w' = trace w @ es \<and> set es \<subseteq> S" by blast
next
  assume "\<exists>es. trace w' = trace w @ es \<and> set es \<subseteq> S"
  then show "adds S w w'" by (auto simp: adds_def)
qed

lemma adds_refl: "adds S w w"
  by (simp add: adds_iff)

lemma adds_trans: "adds S w w1 \<Longrightarrow> adds S w1 w2 \<Longrightarrow> adds S w w2"
  by (auto simp: adds_iff)

lemma adds_mono: "adds S w w' \<Longrightarrow> S \<subseteq> T \<Longrightarrow> adds T w w'"
  by (auto simp: adds_iff)

lemma adds_emit: "e \<in> S \<Longrightarrow> adds S w (emit e w)"
  by (simp add: adds_iff emit_def)

lemma adds_sleep: "Sleep n \<in> S \<Longrightarrow> adds S w (sleep n w)"
  by (simp add: adds_iff emit_def sleep_def)

lemma adds_api_request: "api_request e w = (r, w1) \<Longrightarrow> e \<in> S \<Longrightarrow> adds S w w1"
  by (auto simp: api_request_def adds_iff emit_def)

lemma adds_load: "load w = (r, w1) \<Longrightarrow> Load \<in> S \<Longrightarrow> adds S w w1"
  by (auto simp: load_def api_request_def adds_iff emit_def split: option.splits)

lemma adds_power_on: "power_on w = (r, w1) \<Longrightarrow> PowerOn \<in> S \<Longrightarrow> adds S w w1"
  by (auto simp: power_on_def api_request_def adds_iff emit_def split: option.splits)

lemma adds_shutdown: "shutdown w = (r, w1) \<Longrightarrow> Shutdown \<in> S \<Longrightarrow> adds S w w1"
  by (auto simp: shutdown_def api_request_def adds_iff emit_def split: option.splits)

lemma adds_mc_status: "mc_status w = (r, w1) \<Longrightarrow> McStatus \<in> S \<Longrightarrow> adds S w w1"
  by (auto simp: mc_status_def adds_iff emit_def)

lemma adds_is_running: "is_running w = (r, w1) \<Longrightarrow> Load \<in> S \<Longrightarrow> adds S w w1"
  by (auto simp: is_running_def split: prod.splits sum.splits dest: adds_load)

lemma adds_is_server_online: "is_server_online w = (r, w1) \<Longrightarrow> McStatus \<in> S \<Longrightarrow> adds S w w1"
  by (auto simp: is_server_online_def split: prod.splits option.splits dest: adds_mc_status)

lemma adds_wait_for_droplet:
  "wait_for_droplet s w = (r, w1) \<Longrightarrow> Load \<in> S \<Longrightarrow> range Sleep \<subseteq> S \<Longrightarrow> adds S w w1"
proof (induction s w arbitrary: r w1 rule: wait_for_droplet.induct)
  case (1 start w)
  show ?case
  proof (cases "clock w - start < 300")
    case False
    with "1.prems" show ?thesis by (simp add: adds_refl)
  next
    case True
    obtain x y where xy: "is_running w = (x, y)" by (cases "is_running w")
    have a: "adds S w y" using xy "1.prems"(2) by (rule adds_is_running)
    show ?thesis
    proof (cases x)
      case (Inl e)
      with True xy "1.prems" have "w1 = y" by simp
      with a show ?thesis by simp
    next
      case (Inr b)
      show ?thesis
      proof (cases b)
        case True
        with \<open>clock w - start < 300\<close> xy Inr "1.prems" have "w1 = y" by simp
        with a show ?thesis by simp
      next
        case False
        then have b: "b = False" by simp
        from b \<open>clock w - start < 300\<close> xy Inr "1.prems"
        have "wait_for_droplet start (sleep 5 y) = (r, w1)" by simp
        then have "adds S (sleep 5 y) w1"
          using "1.IH" [OF \<open>clock w - start < 300\<close> xy [symmetric] Inr b] "1.prems" by simp
        moreover have "adds S y (sleep 5 y)"
          using "1.prems"(3) by (auto intro: adds_sleep)
        ultimately show ?thesis using a adds_trans by blast
      qed
    qed
  qed
qed

lemma adds_start_droplet_poll:
  "start_droplet_poll s w = (r, w1) \<Longrightarrow> Load \<in> S \<Longrightarrow> range Sleep \<subseteq> S \<Longrightarrow> adds S w w1"
proof (induction s w arbitrary: r w1 rule: start_droplet_poll.induct)
  case (1 start w)
  show ?case
  proof (cases "clock w - start < 300")
    case False
    with "1.prems" show ?thesis by (simp add: adds_refl)
  next
    case True
    obtain x y where xy: "load w = (x, y)" by (cases "load w")
    have a: "adds S w y" using xy "1.prems"(2) by (rule adds_load)
    show ?thesis
    proof (cases x)
      case (Inl e)
      with True xy "1.prems" have "w1 = y" by simp
      with a show ?thesis by simp
    next
      case (Inr u)
      show ?thesis
      proof (cases "droplet_status y = ''active''")
        case True
        with \<open>clock w - start < 300\<close> xy Inr "1.prems" have "w1 = sleep 30 y" by simp
        moreover have "adds S y (sleep 30 y)"
          using "1.prems"(3) by (auto intro: adds_sleep)
        ultimately show ?thesis using a adds_trans by blast
      next
        case False
        with \<open>clock w - start < 300\<close> xy Inr "1.prems"
        have "start_droplet_poll start (sleep 5 y) = (r, w1)" by simp
        then have "adds S (sleep 5 y) w1"
          using "1.IH" [OF \<open>clock w - start < 300\<close> xy [symmetric] Inr False] "1.prems" by simp
        moreover have "adds S y (sleep 5 y)"
          using "1.prems"(3) by (auto intro: adds_sleep)
        ultimately show ?thesis using a adds_trans by blast
      qed
    qed
  qed
qed

lemma adds_wait_for_server_ready_loop:
  "wait_for_server_ready_loop t s w = (r, w1) \<Longrightarrow> McStatus \<in> S \<Longrightarrow> range Sleep \<subseteq> S
     \<Longrightarrow> adds S w w1"
proof (induction t s w arbitrary: r w1 rule: wait_for_server_ready_loop.induct)
  case (1 timeout start w)
  show ?case
  proof (cases "clock w - start < timeout")
    case False
    with "1.prems" show ?thesis by (simp add: adds_refl)
  next
    case True
    obtain x y where xy: "is_server_online w = (x, y)" by (cases "is_server_online w")
    have a: "adds S w y" using xy "1.prems"(2) by (rule adds_is_server_online)
    show ?thesis
    proof (cases x)
      case True
      with \<open>clock w - start < timeout\<close> xy "1.prems" have "w1 = y" by simp
      with a show ?thesis by simp
    next
      case False
      then have b: "x = False" by simp
      from b \<open>clock w - start < timeout\<close> xy "1.prems"
      have "wait_for_server_ready_loop timeout start (sleep 5 y) = (r, w1)" by simp
      then have "adds S (sleep 5 y) w1"
        using "1.IH" [OF \<open>clock w - start < timeout\<close> xy [symmetric] b] "1.prems" by simp
      moreover have "adds S y (sleep 5 y)"
        using "1.prems"(3) by (auto intro: adds_sleep)
      ultimately show ?thesis using a adds_trans by blast
    qed
  qed
qed

lemma adds_wait_for_server_ready:
  "wait_for_server_ready w = (r, w1) \<Longrightarrow> McStatus \<in> S \<Longrightarrow> range Sleep \<subseteq> S \<Longrightarrow> adds S w w1"
  unfolding wait_for_server_ready_def by (rule adds_wait_for_server_ready_loop)

lemma adds_start_droplet_tail:
  assumes "start_droplet w = (r, w')" and "Load \<in> S" and "PowerOn \<in> S" and "range Sleep \<subseteq> S"
  shows "\<exists>w1. adds {Load} w w1 \<and> trace w1 = trace w @ [Load] \<and> adds S w1 w'"
proof -
  obtain x y where xy: "load w = (x, y)" by (cases "load w")
  have t: "trace y = trace w @ [Load]"
    using xy by (auto simp: load_def api_request_def emit_def split: option.splits)
  have a: "adds {Load} w y" using xy by (auto intro: adds_load)
  have "adds S y w'"
  proof (cases x)
    case (Inl e)
    with xy assms(1) have "w' = y" by (simp add: start_droplet_def)
    then show ?thesis by (simp add: adds_refl)
  next
    case (Inr u)
    show ?thesis
    proof (cases "droplet_status y = ''active''")
      case True
      with Inr xy assms(1) have "w' = y" by (simp add: start_droplet_def)
      then show ?thesis by (simp add: adds_refl)
    next
      case False
      obtain x2 y2 where p: "power_on y = (x2, y2)" by (cases "power_on y")
      have b: "adds S y y2" using p assms(3) by (rule adds_power_on)
      show ?thesis
      proof (cases x2)
        case (Inl e)
        with Inr False xy p assms(1) have "w' = y2" by (simp add: start_droplet_def)
        with b show ?thesis by simp
      next
        case (Inr u2)
        obtain x3 y3 where q: "start_droplet_poll (clock y2) y2 = (x3, y3)"
          by (cases "start_droplet_poll (clock y2) y2")
        have c: "adds S y2 y3" using q assms(2,4) by (rule adds_start_droplet_poll)
        from Inr \<open>x = Inr u\<close> False xy p q assms(1) have "w' = y3"
          by (simp add: start_droplet_def)
        with b c show ?thesis using adds_trans by blast
      qed
    qed
  qed
  with a t show ?thesis by blast
qed

lemma adds_start_droplet:
  assumes "start_droplet w = (r, w')" and "Load \<in> S" and "PowerOn \<in> S" and "range Sleep \<subseteq> S"
  shows "adds S w w'"
proof -
  obtain w1 where "adds {Load} w w1" and "adds S w1 w'"
    using adds_start_droplet_tail [OF assms] by blast
  then show ?thesis using assms(2) by (blast intro: adds_trans adds_mono)
qed

lemma adds_stop_droplet:
  assumes "stop_droplet w = (r, w')" and "Load \<in> S" and "Shutdown \<in> S"
  shows "adds S w w'"
proof -
  obtain x y where xy: "load w = (x, y)" by (cases "load w")
  have a: "adds S w y" using xy assms(2) by (rule adds_load)
  obtain x2 y2 where p: "shutdown y = (x2, y2)" by (cases "shutdown y")
  have b: "adds S y y2" using p assms(3) by (rule adds_shutdown)
  from xy p assms(1) have "w' = y \<or> w' = y2"
    by (auto simp: stop_droplet_def split: sum.splits if_splits)
  with a b show ?thesis using adds_trans by blast
qed

lemma adds_set_last_activity:
  "set_last_activity v (m, w) = (m1, w1) \<Longrightarrow> SetLastActivity v \<in> S \<Longrightarrow> adds S w w1"
  by (auto simp: set_last_activity_def intro: adds_emit)

lemma adds_set_server_ready:
  "set_server_ready v (m, w) = (m1, w1) \<Longrightarrow> SetServerReady v \<in> S \<Longrightarrow> adds S w w1"
  by (auto simp: set_server_ready_def intro: adds_emit)

lemma adds_set_startup_in_progress:
  "set_startup_in_progress v (m, w) = (m1, w1) \<Longrightarrow> SetStartupInProgress v \<in> S \<Longrightarrow> adds S w w1"
  by (auto simp: set_startup_in_progress_def intro: adds_emit)

lemma adds_ensure_server_ready:
  assumes "ensure_server_ready m w = (r, m', w')"
  shows "adds polling_events w w'"
proof (cases "server_ready m")
  case True
  with assms have "w' = w" by (simp add: ensure_server_ready_def)
  then show ?thesis by (simp add: adds_refl)
next
  case False
  have L: "Load \<in> polling_events" and M: "McStatus \<in> polling_events"
    and Z: "range Sleep \<subseteq> polling_events"
    by (auto simp: polling_events_def)
  obtain x1 y1 where d: "wait_for_droplet (clock w) w = (x1, y1)"
    by (cases "wait_for_droplet (clock w) w")
  have a1: "adds polling_events w y1" using d L Z by (rule adds_wait_for_droplet)
  obtain x2 y2 where i: "is_running y1 = (x2, y2)" by (cases "is_running y1")
  have a2: "adds polling_events w y2"
    using adds_trans [OF a1 adds_is_running [OF i L]] .
  obtain x3 y3 where q: "wait_for_server_ready y2 = (x3, y3)"
    by (cases "wait_for_server_ready y2")
  have a3: "adds polling_events w y3"
    using adds_trans [OF a2 adds_wait_for_server_ready [OF q M Z]] .
  let ?y4 = "emit (SetLastActivity (Some (clock y3))) (emit (SetServerReady True) y3)"
  have a4: "adds polling_events w ?y4"
    by (rule adds_trans [OF a3]) (auto simp: adds_iff emit_def polling_events_def)
  from False d i q assms have "w' = y1 \<or> w' = y2 \<or> w' = y3 \<or> w' = ?y4"
    by (auto simp: ensure_server_ready_def set_last_activity_def set_server_ready_def
        split: sum.splits bool.splits if_splits)
  with a1 a2 a3 a4 show ?thesis by blast
qed

lemmas world_defs = load_def power_on_def shutdown_def mc_status_def api_request_def emit_def
  sleep_def is_running_def is_server_online_def get_player_count_def start_droplet_def
  stop_droplet_def script_world_def

lemmas manager_defs = set_last_activity_def set_startup_in_progress_def set_server_ready_def
  init_manager_def new_proxy_def get_active_connections_def

lemma trace_load: "load w = (r, w1) \<Longrightarrow> trace w1 = trace w @ [Load]"
  by (auto simp: load_def api_request_def emit_def split: option.splits)

lemma trace_is_running: "is_running w = (r, w1) \<Longrightarrow> trace w1 = trace w @ [Load]"
  by (auto simp: is_running_def split: prod.splits sum.splits dest: trace_load)

lemma is_running_reply:
  "api w (api_n w) = Some s \<Longrightarrow>
     is_running w = (Inr (s = ''active''), (emit Load w)\<lparr>api_n := api_n w + 1, droplet_status := s\<rparr>)"
  by (simp add: is_running_def load_def api_request_def)

lemma api_sleep: "api (sleep n w) = api w"
  by (simp add: sleep_def emit_def)

lemma api_is_running: "is_running w = (r, w1) \<Longrightarrow> api w1 = api w"
  by (auto simp: is_running_def load_def api_request_def emit_def split: option.splits)

lemma is_running_True_reply:
  "is_running w = (Inr True, w1) \<Longrightarrow> api w (api_n w) = Some ''active''"
  by (auto simp: is_running_def load_def api_request_def emit_def split: option.splits)

lemma api_wait_for_droplet: "wait_for_droplet s w = (r, w1) \<Longrightarrow> api w1 = api w"
proof (induction s w arbitrary: r w1 rule: wait_for_droplet.induct)
  case (1 start w)
  show ?case
  proof (cases "clock w - start < 300")
    case False
    with "1.prems" show ?thesis by simp
  next
    case True
    obtain x y where xy: "is_running w = (x, y)" by (cases "is_running w")
    have a: "api y = api w" using xy by (rule api_is_running)
    show ?thesis
    proof (cases "x = Inr False")
      case False
      with True xy "1.prems" have "w1 = y" by (auto split: sum.splits bool.splits)
      with a show ?thesis by simp
    next
      case x: True
      with True xy "1.prems" have "wait_for_droplet start (sleep 5 y) = (r, w1)" by simp
      then have "api w1 = api (sleep 5 y)"
        using "1.IH" [OF True xy [symmetric] x refl] by simp
      with a show ?thesis by (simp add: api_sleep)
    qed
  qed
qed

lemma start_server_unfold:
  "start_server m w =
     (if startup_in_progress m then (Inr (), m, w)
      else
        (case set_server_ready False (set_startup_in_progress True (m, w)) of (m1, w1) \<Rightarrow>
           (case start_droplet w1 of (r, w2) \<Rightarrow>
              (case set_startup_in_progress False (m1, w2) of (m2, w3) \<Rightarrow>
                 (case r of Inl e \<Rightarrow> (Inl e, m2, w3) | Inr b \<Rightarrow> (Inr (), m2, w3))))))"
  by (simp add: start_server_def start_server_enter_def start_server_attempt_def
      split: prod.splits)

lemma start_server_skipped: "startup_in_progress m \<Longrightarrow> start_server m w = (Inr (), m, w)"
  by (simp add: start_server_unfold)

lemma start_server_run:
  assumes "\<not> startup_in_progress m" and "start_server m w = (r, m', w')"
  shows "m' = m\<lparr>startup_in_progress := False, server_ready := False\<rparr>"
    and "\<exists>es. trace w' = trace w @ [SetStartupInProgress True, SetServerReady False, Load] @ es
            @ [SetStartupInProgress False] \<and> set es \<subseteq> {Load, PowerOn} \<union> range Sleep"
proof -
  let ?w1 = "emit (SetServerReady False) (emit (SetStartupInProgress True) w)"
  obtain x y where d: "start_droplet ?w1 = (x, y)" by (cases "start_droplet ?w1")
  from assms d show "m' = m\<lparr>startup_in_progress := False, server_ready := False\<rparr>"
    by (auto simp: start_server_unfold manager_defs split: sum.splits)
  from assms d have w': "w' = emit (SetStartupInProgress False) y"
    by (auto simp: start_server_unfold manager_defs split: sum.splits)
  obtain v where v: "trace v = trace ?w1 @ [Load]" and a: "adds ({Load, PowerOn} \<union> range Sleep) v y"
    using adds_start_droplet_tail [OF d, of "{Load, PowerOn} \<union> range Sleep"] by auto
  from a obtain es where "trace y = trace v @ es" and "set es \<subseteq> {Load, PowerOn} \<union> range Sleep"
    by (auto simp: adds_iff)
  with v w' show "\<exists>es. trace w' = trace w @ [SetStartupInProgress True, SetServerReady False, Load]
      @ es @ [SetStartupInProgress False] \<and> set es \<subseteq> {Load, PowerOn} \<union> range Sleep"
    by (auto simp: emit_def)
qed

section \<open>Claims\<close>

text \<open>
  C7. A call of \<open>ensure_server_ready\<close> made while \<open>server_ready\<close> is set returns
  True at once and has no effect: the manager and the world, with its trace, its clock and
  the positions in the two scripts, are the ones it was given, so nothing was asked of
  the cloud API or of the game server and no attribute was written.
\<close>

theorem ensure_server_ready_when_ready:
  "server_ready m \<Longrightarrow> ensure_server_ready m w = (Inr True, m, w)"
  by (simp add: ensure_server_ready_def)

theorem ensure_server_ready_when_ready_witness:
  "server_ready ((init_manager 15)\<lparr>server_ready := True\<rparr>) \<and>
   ensure_server_ready ((init_manager 15)\<lparr>server_ready := True\<rparr>)
       (script_world 0 (\<lambda>k. None) (\<lambda>k. None))
     = (Inr True, (init_manager 15)\<lparr>server_ready := True\<rparr>,
        script_world 0 (\<lambda>k. None) (\<lambda>k. None))"
  using ensure_server_ready_when_ready
    [of "(init_manager 15)\<lparr>server_ready := True\<rparr>" "script_world 0 (\<lambda>k. None) (\<lambda>k. None)"]
  by (simp add: init_manager_def)

lemma api_n_is_running: "is_running w = (r, w1) \<Longrightarrow> api_n w1 = Suc (api_n w)"
  by (auto simp: is_running_def load_def api_request_def emit_def split: option.splits)

lemma api_n_sleep: "api_n (sleep n w) = api_n w"
  by (simp add: sleep_def emit_def)

lemma api_n_wait_for_droplet: "wait_for_droplet s w = (r, w1) \<Longrightarrow> api_n w \<le> api_n w1"
proof (induction s w arbitrary: r w1 rule: wait_for_droplet.induct)
  case (1 start w)
  show ?case
  proof (cases "clock w - start < 300")
    case False
    with "1.prems" show ?thesis by simp
  next
    case True
    obtain x y where xy: "is_running w = (x, y)" by (cases "is_running w")
    have a: "api_n y = Suc (api_n w)" using xy by (rule api_n_is_running)
    show ?thesis
    proof (cases "x = Inr False")
      case False
      with True xy "1.prems" have "w1 = y" by (auto split: sum.splits bool.splits)
      with a show ?thesis by simp
    next
      case x: True
      with True xy "1.prems" have "wait_for_droplet start (sleep 5 y) = (r, w1)" by simp
      then have "api_n (sleep 5 y) \<le> api_n w1"
        using "1.IH" [OF True xy [symmetric] x refl] by simp
      with a show ?thesis by (simp add: api_n_sleep)
    qed
  qed
qed

lemma wait_for_droplet_first_probe:
  assumes "wait_for_droplet (clock w) w = (r, w1)"
  shows "\<exists>es. trace w1 = trace w @ Load # es"
proof -
  obtain x y where xy: "is_running w = (x, y)" by (cases "is_running w")
  have t: "trace y = trace w @ [Load]" using xy by (rule trace_is_running)
  have "adds UNIV y w1"
  proof (cases "x = Inr False")
    case False
    with xy assms have "w1 = y" by (auto split: sum.splits bool.splits)
    then show ?thesis by (simp add: adds_refl)
  next
    case True
    with xy assms have "wait_for_droplet (clock w) (sleep 5 y) = (r, w1)" by simp
    then have "adds UNIV (sleep 5 y) w1" by (rule adds_wait_for_droplet) auto
    moreover have "adds UNIV y (sleep 5 y)" by (rule adds_sleep) simp
    ultimately show ?thesis by (rule adds_trans [rotated])
  qed
  with t show ?thesis by (auto simp: adds_iff)
qed

lemma ensure_server_ready_probes:
  assumes "\<not> server_ready m"
  shows "\<exists>es. trace (snd (snd (ensure_server_ready m w))) = trace w @ Load # es"
proof -
  obtain x1 y1 where d: "wait_for_droplet (clock w) w = (x1, y1)"
    by (cases "wait_for_droplet (clock w) w")
  obtain es where e: "trace y1 = trace w @ Load # es"
    using wait_for_droplet_first_probe [OF d] by blast
  obtain r m' w' where r: "ensure_server_ready m w = (r, m', w')"
    by (cases "ensure_server_ready m w")
  have "adds UNIV y1 w'"
  proof (cases x1)
    case (Inl e)
    with assms d r have "w' = y1" by (simp add: ensure_server_ready_def)
    then show ?thesis by (simp add: adds_refl)
  next
    case (Inr u)
    obtain x2 y2 where i: "is_running y1 = (x2, y2)" by (cases "is_running y1")
    have a2: "adds UNIV y1 y2" using i by (rule adds_is_running) simp
    obtain x3 y3 where q: "wait_for_server_ready y2 = (x3, y3)"
      by (cases "wait_for_server_ready y2")
    have a3: "adds UNIV y2 y3" using q by (rule adds_wait_for_server_ready) auto
    let ?y4 = "emit (SetLastActivity (Some (clock y3))) (emit (SetServerReady True) y3)"
    have a4: "adds UNIV y3 ?y4" by (auto simp: adds_iff emit_def)
    from assms d i q r Inr have "w' = y2 \<or> w' = y3 \<or> w' = ?y4"
      by (auto simp: ensure_server_ready_def manager_defs split: sum.splits bool.splits)
    with a2 a3 a4 show ?thesis by (blast intro: adds_trans)
  qed
  with e r show ?thesis by (auto simp: adds_iff)
qed

lemma ensure_server_ready_True_needs_active:
  assumes "\<not> server_ready m" and "fst (ensure_server_ready m w) = Inr True"
  shows "\<exists>k\<ge>api_n w. api w k = Some ''active''"
proof -
  obtain x1 y1 where d: "wait_for_droplet (clock w) w = (x1, y1)"
    by (cases "wait_for_droplet (clock w) w")
  obtain x2 y2 where i: "is_running y1 = (x2, y2)" by (cases "is_running y1")
  from assms d i have "x2 = Inr True"
    by (auto simp: ensure_server_ready_def split: sum.splits bool.splits prod.splits)
  with i have "api y1 (api_n y1) = Some ''active''"
    by (simp add: is_running_True_reply)
  moreover have "api y1 = api w" using d by (rule api_wait_for_droplet)
  moreover have "api_n w \<le> api_n y1" using d by (rule api_n_wait_for_droplet)
  ultimately show ?thesis by auto
qed

lemma tick_not_running:
  assumes "api w (api_n w) = Some s" and "s \<noteq> ''active''"
  shows "check_inactivity m w = (Inr DropletNotRunning, m\<lparr>server_ready := False\<rparr>,
      emit (SetServerReady False) ((emit Load w)\<lparr>api_n := api_n w + 1, droplet_status := s\<rparr>))"
  using assms by (simp add: check_inactivity_def is_running_reply manager_defs)

text \<open>
  C9. When the status query of a tick reports the droplet not running,
  \<open>server_ready\<close> is clear after the tick. From that state \<open>ensure_server_ready\<close>
  cannot return at once: in every world its first act is a status query of the droplet,
  and it can only return True if some reply of the cloud API from then on reports the
  droplet active.

\<close>

theorem tick_clears_stale_ready:
  assumes "api w (api_n w) = Some s" and "s \<noteq> ''active''"
  shows "\<not> server_ready (fst (snd (check_inactivity m w)))
     \<and> (\<forall>w2. \<exists>es. trace (snd (snd (ensure_server_ready (fst (snd (check_inactivity m w))) w2)))
                    = trace w2 @ Load # es)
     \<and> (\<forall>w2. fst (ensure_server_ready (fst (snd (check_inactivity m w))) w2) = Inr True
             \<longrightarrow> (\<exists>k\<ge>api_n w2. api w2 k = Some ''active''))"
proof -
  have n: "\<not> server_ready (fst (snd (check_inactivity m w)))"
    using tick_not_running [OF assms] by simp
  show ?thesis
    using n ensure_server_ready_probes [OF n] ensure_server_ready_True_needs_active [OF n]
    by blast
qed

theorem tick_clears_stale_ready_witness:
  "api (script_world 1000 always_off no_reply) (api_n (script_world 1000 always_off no_reply))
      = Some ''off'' \<and> ''off'' \<noteq> ''active''
   \<and> server_ready ((init_manager 15)\<lparr>server_ready := True\<rparr>)
   \<and> \<not> server_ready (fst (snd (check_inactivity ((init_manager 15)\<lparr>server_ready := True\<rparr>)
         (script_world 1000 always_off no_reply))))
   \<and> fst (ensure_server_ready (fst (snd (check_inactivity ((init_manager 15)\<lparr>server_ready := True\<rparr>)
         (script_world 1000 always_off no_reply)))) (script_world 1060 always_off no_reply)) \<noteq> Inr True"
proof -
  have h1: "api (script_world 1000 always_off no_reply)
      (api_n (script_world 1000 always_off no_reply)) = Some ''off''"
    by (simp add: script_world_def always_off_def)
  have h2: "''off'' \<noteq> ''active''" by simp
  note t = tick_clears_stale_ready [OF h1 h2, of "(init_manager 15)\<lparr>server_ready := True\<rparr>"]
  have "\<not> (\<exists>k\<ge>api_n (script_world 1060 always_off no_reply).
      api (script_world 1060 always_off no_reply) k = Some ''active'')"
    by (simp add: script_world_def always_off_def)
  with t h1 h2 show ?thesis by (auto simp: init_manager_def)
qed

lemma on_connection_attempt_trace:
  "\<exists>es. trace (snd (snd (on_connection_attempt m w)))
          = trace w @ SetLastActivity (Some (clock w)) # Load # es
      \<and> set es \<subseteq> {SetServerReady False, SetStartupInProgress True, SetStartupInProgress False,
                    Load, PowerOn} \<union> range Sleep"
proof -
  let ?w1 = "emit (SetLastActivity (Some (clock w))) w"
  let ?m1 = "m\<lparr>last_activity_time := Some (clock w)\<rparr>"
  obtain x y where xy: "is_running ?w1 = (x, y)" by (cases "is_running ?w1")
  have t: "trace y = trace w @ [SetLastActivity (Some (clock w)), Load]"
    using trace_is_running [OF xy] by (simp add: emit_def)
  show ?thesis
  proof (cases "x = Inr False")
    case False
    with xy have "snd (snd (on_connection_attempt m w)) = y"
      by (auto simp: on_connection_attempt_def manager_defs split: sum.splits bool.splits)
    with t show ?thesis by simp
  next
    case True
    let ?m2 = "?m1\<lparr>server_ready := False\<rparr>"
    let ?w3 = "emit (SetServerReady False) y"
    obtain r m' w' where s: "start_server ?m2 ?w3 = (r, m', w')"
      by (cases "start_server ?m2 ?w3")
    from True xy s have o: "snd (snd (on_connection_attempt m w)) = w'"
      by (simp add: on_connection_attempt_def manager_defs)
    show ?thesis
    proof (cases "startup_in_progress m")
      case True
      with s have "w' = ?w3" by (simp add: start_server_unfold)
      with o t show ?thesis by (simp add: emit_def)
    next
      case False
      then have "\<not> startup_in_progress ?m2" by simp
      from start_server_run(2) [OF this s] obtain es where
        "trace w' = trace ?w3 @ [SetStartupInProgress True, SetServerReady False, Load] @ es
            @ [SetStartupInProgress False]" and "set es \<subseteq> {Load, PowerOn} \<union> range Sleep"
        by blast
      with o t show ?thesis by (auto simp: emit_def)
    qed
  qed
qed

lemma on_connection_attempt_activity:
  "last_activity_time (fst (snd (on_connection_attempt m w))) = Some (clock w)"
proof -
  have "last_activity_time (fst (snd (start_server m2 w2))) = last_activity_time m2" for m2 w2
    by (simp add: start_server_unfold manager_defs split: prod.splits sum.splits)
  then show ?thesis
    by (simp add: on_connection_attempt_def manager_defs split: prod.splits sum.splits bool.splits)
qed

text \<open>
  C10. In a pass of the accept loop with \<open>on_connection_attempt\<close> as the on-connect
  callback, the write of the current time to \<open>last_activity_time\<close> is the first thing that
  happens after the connection is accepted: it comes before the status query of the
  droplet, and nothing later in the pass writes the attribute again. So when the pass
  ends, with the session's thread started or not and with the start of the droplet
  succeeded or failed, \<open>last_activity_time\<close> is the time of the accept.
\<close>

theorem accept_records_activity:
  "last_activity_time (fst (snd (listen_iteration (Some on_connection_attempt) m w)))
      = Some (clock w)
   \<and> (\<exists>es. trace (snd (snd (listen_iteration (Some on_connection_attempt) m w)))
            = trace w @ Accepted # SetLastActivity (Some (clock w)) # Load # es
         \<and> (\<forall>v. SetLastActivity v \<notin> set es))"
proof -
  let ?w0 = "emit Accepted w"
  obtain r m' w' where o: "on_connection_attempt m ?w0 = (r, m', w')"
    by (cases "on_connection_attempt m ?w0")
  have c: "clock ?w0 = clock w" by (simp add: emit_def)
  have a: "last_activity_time m' = Some (clock w)"
    using on_connection_attempt_activity [of m ?w0] o c by simp
  obtain es where e: "trace w' = trace ?w0 @ SetLastActivity (Some (clock w)) # Load # es"
    and s: "set es \<subseteq> {SetServerReady False, SetStartupInProgress True,
        SetStartupInProgress False, Load, PowerOn} \<union> range Sleep"
    using on_connection_attempt_trace [of m ?w0] o c by auto
  from s have n: "SetLastActivity v \<notin> set es" for v by auto
  show ?thesis
  proof (cases r)
    case (Inl x)
    with o a e n show ?thesis by (simp add: listen_iteration_def emit_def)
  next
    case (Inr u)
    with o a e n show ?thesis by (simp add: listen_iteration_def emit_def)
  qed
qed




text \<open>
  C8, as amended. When the status query reports the droplet not running,
  \<open>stop_server\<close> answers "already stopped" (success false, status 200); when it reports
  the droplet active, \<open>web_start_server\<close> answers "already running". In both cases the
  manager is the one given, and the only request sent to the cloud API is that one status
  query: no power-on and no shutdown request, and no attribute is written.
\<close>

theorem manual_noop:
  "(api w (api_n w) = Some s \<and> s \<noteq> ''active'' \<longrightarrow>
      stop_server (Some m) w
        = (jsonify False AlreadyStopped 200, Some m,
           (emit Load w)\<lparr>api_n := api_n w + 1, droplet_status := s\<rparr>))
   \<and> (api w (api_n w) = Some ''active'' \<longrightarrow>
      web_start_server (Some m) w
        = (jsonify False AlreadyRunning 200, Some m,
           (emit Load w)\<lparr>api_n := api_n w + 1, droplet_status := ''active''\<rparr>))"
  by (simp add: stop_server_def web_start_server_def is_running_reply)

theorem manual_noop_witness:
  "fst (stop_server (Some (init_manager 15)) (script_world 0 always_off no_reply))
     = \<lparr>success = False, message = AlreadyStopped, http_status = 200\<rparr>
   \<and> fst (snd (stop_server (Some (init_manager 15)) (script_world 0 always_off no_reply)))
     = Some (init_manager 15)
   \<and> trace (snd (snd (stop_server (Some (init_manager 15))
        (script_world 0 always_off no_reply)))) = [Load]
   \<and> fst (web_start_server (Some (init_manager 15)) (script_world 0 always_active no_reply))
     = \<lparr>success = False, message = AlreadyRunning, http_status = 200\<rparr>
   \<and> fst (snd (web_start_server (Some (init_manager 15))
        (script_world 0 always_active no_reply))) = Some (init_manager 15)
   \<and> trace (snd (snd (web_start_server (Some (init_manager 15))
        (script_world 0 always_active no_reply)))) = [Load]"
proof -
  have a: "api (script_world 0 always_off no_reply) (api_n (script_world 0 always_off no_reply))
      = Some ''off'' \<and> ''off'' \<noteq> ''active''"
    by (simp add: script_world_def always_off_def)
  have b: "api (script_world 0 always_active no_reply)
      (api_n (script_world 0 always_active no_reply)) = Some ''active''"
    by (simp add: script_world_def always_active_def)
  note t = manual_noop [where w = "script_world 0 always_off no_reply" and s = "''off''"
      and m = "init_manager 15"]
  note u = manual_noop [where w = "script_world 0 always_active no_reply"
      and m = "init_manager 15"]
  from t a have 1: "stop_server (Some (init_manager 15)) (script_world 0 always_off no_reply)
      = (jsonify False AlreadyStopped 200, Some (init_manager 15),
         (emit Load (script_world 0 always_off no_reply))
           \<lparr>api_n := api_n (script_world 0 always_off no_reply) + 1, droplet_status := ''off''\<rparr>)"
    by blast
  from u b have 2: "web_start_server (Some (init_manager 15))
        (script_world 0 always_active no_reply)
      = (jsonify False AlreadyRunning 200, Some (init_manager 15),
         (emit Load (script_world 0 always_active no_reply))
           \<lparr>api_n := api_n (script_world 0 always_active no_reply) + 1,
             droplet_status := ''active''\<rparr>)"
    by blast
  show ?thesis
    unfolding 1 2 by (simp add: jsonify_def emit_def script_world_def)
qed

text \<open>
  C8 as stated fails: answering "already stopped" (and "already running") costs one
  request to the instance controller, the status query behind \<open>is_running\<close>.
\<close>

theorem manual_noop_counterexample:
  "message (fst (stop_server (Some (init_manager 15)) (script_world 0 always_off no_reply)))
     = AlreadyStopped
   \<and> trace (snd (snd (stop_server (Some (init_manager 15))
        (script_world 0 always_off no_reply)))) = [Load]
   \<and> api_n (snd (snd (stop_server (Some (init_manager 15))
        (script_world 0 always_off no_reply)))) = 1
   \<and> message (fst (web_start_server (Some (init_manager 15))
        (script_world 0 always_active no_reply))) = AlreadyRunning
   \<and> trace (snd (snd (web_start_server (Some (init_manager 15))
        (script_world 0 always_active no_reply)))) = [Load]"
  by (simp add: stop_server_def web_start_server_def world_defs jsonify_def always_off_def
      always_active_def)

lemma start_droplet_shape:
  assumes "start_droplet w = (r, w')"
  shows "trace w' = trace w @ [Load]
     \<or> (\<exists>es. trace w' = trace w @ Load # PowerOn # es \<and> set es \<subseteq> {Load} \<union> range Sleep)"
proof -
  obtain x y where xy: "load w = (x, y)" by (cases "load w")
  have t: "trace y = trace w @ [Load]" using xy by (rule trace_load)
  obtain x2 y2 where p: "power_on y = (x2, y2)" by (cases "power_on y")
  have t2: "trace y2 = trace y @ [PowerOn]"
    using p by (auto simp: power_on_def api_request_def emit_def split: option.splits)
  obtain x3 y3 where q: "start_droplet_poll (clock y2) y2 = (x3, y3)"
    by (cases "start_droplet_poll (clock y2) y2")
  have "adds ({Load} \<union> range Sleep) y2 y3" using q by (rule adds_start_droplet_poll) auto
  then obtain es where t3: "trace y3 = trace y2 @ es" and es: "set es \<subseteq> {Load} \<union> range Sleep"
    by (auto simp: adds_iff)
  from xy p q assms have "w' = y \<or> w' = y2 \<or> w' = y3"
    by (auto simp: start_droplet_def split: sum.splits if_splits)
  with t t2 t3 es show ?thesis by auto
qed


lemma start_server_one_power_on:
  "count_list (drop (length (trace w)) (trace (snd (snd (start_server m w))))) PowerOn \<le> 1"
proof (cases "startup_in_progress m")
  case True
  then show ?thesis by (simp add: start_server_unfold)
next
  case False
  let ?w1 = "emit (SetServerReady False) (emit (SetStartupInProgress True) w)"
  obtain x y where d: "start_droplet ?w1 = (x, y)" by (cases "start_droplet ?w1")
  from False d have w': "snd (snd (start_server m w)) = emit (SetStartupInProgress False) y"
    by (auto simp: start_server_unfold manager_defs split: sum.splits)
  from start_droplet_shape [OF d] show ?thesis
  proof
    assume "trace y = trace ?w1 @ [Load]"
    with w' show ?thesis by (simp add: emit_def)
  next
    assume "\<exists>es. trace y = trace ?w1 @ Load # PowerOn # es \<and> set es \<subseteq> {Load} \<union> range Sleep"
    then obtain es where e: "trace y = trace ?w1 @ Load # PowerOn # es"
      and s: "set es \<subseteq> {Load} \<union> range Sleep" by blast
    from s have "PowerOn \<notin> set es" by auto
    then have "count_list es PowerOn = 0" by (simp add: count_list_0_iff)
    with e w' show ?thesis by (simp add: emit_def)
  qed
qed



lemma ensure_server_ready_guard:
  "startup_in_progress (fst (snd (ensure_server_ready m w))) = startup_in_progress m"
  by (simp add: ensure_server_ready_def manager_defs
      del: wait_for_droplet.simps wait_for_server_ready_loop.simps
      split: prod.splits sum.splits bool.splits)

text \<open>
  C1, as amended. \<open>ensure_server_ready\<close> issues no start sequence: in every state and
  world, all it adds to the trace are status queries of the droplet and of the game
  server, sleeps, and the two attribute writes of its success path, so never a power-on
  or shutdown request, and it leaves \<open>startup_in_progress\<close> as it was. Start sequences
  come from \<open>start_server\<close>, which the on-connect hook and the dashboard call: a call
  made while \<open>startup_in_progress\<close> is set does nothing, and any call sends at most one
  power-on request.
\<close>

theorem ensure_server_ready_never_starts:
  "adds ({Load, McStatus, SetServerReady True} \<union> range Sleep \<union> range SetLastActivity) w
      (snd (snd (ensure_server_ready m w)))
   \<and> startup_in_progress (fst (snd (ensure_server_ready m w))) = startup_in_progress m
   \<and> (startup_in_progress m \<longrightarrow> start_server m w = (Inr (), m, w))
   \<and> count_list (drop (length (trace w)) (trace (snd (snd (start_server m w))))) PowerOn \<le> 1"
proof -
  obtain r m' w' where e: "ensure_server_ready m w = (r, m', w')"
    by (cases "ensure_server_ready m w")
  have "adds polling_events w (snd (snd (ensure_server_ready m w)))"
    using adds_ensure_server_ready [OF e] e by simp
  then show ?thesis
    using ensure_server_ready_guard [of m w] start_server_skipped [of m w]
      start_server_one_power_on [of w m]
    by (simp add: polling_events_def)
qed

theorem ensure_server_ready_never_starts_witness:
  "startup_in_progress ((init_manager 15)\<lparr>startup_in_progress := True\<rparr>)
   \<and> start_server ((init_manager 15)\<lparr>startup_in_progress := True\<rparr>)
        (script_world 0 always_off no_reply)
     = (Inr (), (init_manager 15)\<lparr>startup_in_progress := True\<rparr>,
        script_world 0 always_off no_reply)"
proof -
  have h: "startup_in_progress ((init_manager 15)\<lparr>startup_in_progress := True\<rparr>)"
    by (simp add: init_manager_def)
  note t = ensure_server_ready_never_starts
    [of "script_world 0 always_off no_reply" "(init_manager 15)\<lparr>startup_in_progress := True\<rparr>"]
  from t h show ?thesis by blast
qed

text \<open>
  C1 as stated fails. A call of \<open>ensure_server_ready\<close> made while the droplet is off
  sends no power-on request at all: the call polls until its five minutes are over and
  returns False. And the start sequences that do get issued are one per connection, not
  one in all: two connections accepted one after the other, with the droplet staying off
  because the power-on request is refused, make the hook send the power-on request twice.
\<close>

theorem ensure_server_ready_never_starts_counterexample:
  "\<not> server_ready (init_manager 15)
   \<and> count_list (trace (snd (snd (ensure_server_ready (init_manager 15)
        (script_world 0 always_off no_reply))))) PowerOn = 0
   \<and> fst (ensure_server_ready (init_manager 15) (script_world 0 always_off no_reply))
       \<noteq> Inr True
   \<and> (case listen_iteration (Some on_connection_attempt) (init_manager 15)
              (script_world 0 power_on_refused no_reply) of
         (started, m1, w1) \<Rightarrow>
           count_list (trace (snd (snd (listen_iteration (Some on_connection_attempt) m1 w1))))
             PowerOn) = 2"
proof -
  let ?w = "script_world 0 always_off no_reply"
  obtain r m' w' where e: "ensure_server_ready (init_manager 15) ?w = (r, m', w')"
    by (cases "ensure_server_ready (init_manager 15) ?w")
  have "adds polling_events ?w w'" using e by (rule adds_ensure_server_ready)
  then have "PowerOn \<notin> set (trace w')"
    by (auto simp: adds_iff script_world_def polling_events_def)
  then have 1: "count_list (trace (snd (snd (ensure_server_ready (init_manager 15) ?w)))) PowerOn = 0"
    using e by (simp add: count_list_0_iff)
  have "\<not> (\<exists>k\<ge>api_n ?w. api ?w k = Some ''active'')"
    by (simp add: script_world_def always_off_def)
  moreover have 2: "\<not> server_ready (init_manager 15)" by (simp add: init_manager_def)
  ultimately have 4: "fst (ensure_server_ready (init_manager 15) ?w) \<noteq> Inr True"
    using ensure_server_ready_True_needs_active by blast
  have 3: "(case listen_iteration (Some on_connection_attempt) (init_manager 15)
              (script_world 0 power_on_refused no_reply) of
         (started, m1, w1) \<Rightarrow>
           count_list (trace (snd (snd (listen_iteration (Some on_connection_attempt) m1 w1))))
             PowerOn) = 2"
    by (simp add: listen_iteration_def on_connection_attempt_def start_server_unfold world_defs
        manager_defs power_on_refused_def)
  from 1 2 3 4 show ?thesis by blast
qed

lemma step_effect:
  assumes "session_ok t" and "handle_connection_step out t p = (t', p')"
  shows "session_ok t'"
    and "active_connections p' = active_connections p + flying t' - flying t"
proof -
  show "session_ok t'"
    using assms
    by (cases "position t"; cases out;
        auto simp: session_ok_def close_socket_def split: if_splits)
  show "active_connections p' = active_connections p + flying t' - flying t"
    using assms
    by (cases "position t"; cases out; auto simp: flying_def in_flight_def)
qed

lemma count_update:
  "i < length xs \<Longrightarrow>
     int (length (filter P (xs[i := y])))
       = int (length (filter P xs)) + (if P y then 1 else 0) - (if P (xs ! i) then 1 else 0)"
proof (induction xs arbitrary: i)
  case Nil
  then show ?case by simp
next
  case (Cons x xs)
  show ?case
  proof (cases i)
    case 0
    then show ?thesis by simp
  next
    case (Suc j)
    with Cons.prems have "j < length xs" by simp
    from Cons.IH [OF this] Suc show ?thesis by (auto split: if_splits)
  qed
qed

lemma system_ok_new: "system_ok new_system"
  by (simp add: system_ok_def new_system_def new_proxy_def)

lemma system_ok_step:
  assumes "system_ok s"
  shows "system_ok (schedule_step c s)"
proof (cases c)
  case Spawn
  with assms show ?thesis
    by (auto simp: system_ok_def new_session_def in_flight_def session_ok_def)
next
  case (Step i out)
  show ?thesis
  proof (cases "i < length (sessions s)")
    case False
    with Step assms show ?thesis by simp
  next
    case True
    obtain t' p' where h: "handle_connection_step out (sessions s ! i) (proxy s) = (t', p')"
      by (cases "handle_connection_step out (sessions s ! i) (proxy s)")
    have ok: "session_ok (sessions s ! i)"
      using assms True by (simp add: system_ok_def)
    note e = step_effect [OF ok h]
    have n: "schedule_step c s = s\<lparr>proxy := p', sessions := (sessions s)[i := t']\<rparr>"
      using Step True h by simp
    have "active_connections p' = int (length (filter in_flight ((sessions s)[i := t'])))"
      using e(2) assms count_update [OF True, of in_flight t']
      by (simp add: system_ok_def flying_def)
    moreover have "\<forall>t \<in> set ((sessions s)[i := t']). session_ok t"
      using e(1) assms set_update_subset_insert [of "sessions s" i t']
      by (auto simp: system_ok_def)
    ultimately show ?thesis unfolding n by (simp add: system_ok_def)
  qed
qed

lemma system_ok_run: "system_ok s \<Longrightarrow> system_ok (run_schedule cs s)"
  by (induction cs arbitrary: s) (simp_all add: system_ok_step)

lemma start_server_halves:
  "start_server m w = (case start_server_enter m w of
       None \<Rightarrow> (Inr (), m, w)
     | Some (m1, w1) \<Rightarrow> start_server_attempt m1 w1)"
  by (rule start_server_def)

lemma start_server_attempt_clears:
  assumes "start_server_attempt m1 w1 = (r, m', w')"
  shows "m' = m1\<lparr>startup_in_progress := False\<rparr>"
    and "\<exists>es. trace w' = trace w1 @ [Load] @ es @ [SetStartupInProgress False]
            \<and> set es \<subseteq> {Load, PowerOn} \<union> range Sleep"
proof -
  obtain x y where d: "start_droplet w1 = (x, y)" by (cases "start_droplet w1")
  from assms d show "m' = m1\<lparr>startup_in_progress := False\<rparr>"
    by (auto simp: start_server_attempt_def manager_defs split: sum.splits)
  from assms d have w': "w' = emit (SetStartupInProgress False) y"
    by (auto simp: start_server_attempt_def manager_defs split: sum.splits)
  obtain v where v: "trace v = trace w1 @ [Load]"
    and a: "adds ({Load, PowerOn} \<union> range Sleep) v y"
    using adds_start_droplet_tail [OF d, of "{Load, PowerOn} \<union> range Sleep"] by auto
  from a obtain es where "trace y = trace v @ es" and "set es \<subseteq> {Load, PowerOn} \<union> range Sleep"
    by (auto simp: adds_iff)
  with v w' show "\<exists>es. trace w' = trace w1 @ [Load] @ es @ [SetStartupInProgress False]
      \<and> set es \<subseteq> {Load, PowerOn} \<union> range Sleep"
    by (auto simp: emit_def)
qed

text \<open>
  C6. A start attempt is a call of \<open>start_server\<close> that is not skipped, that is, one
  entered with \<open>startup_in_progress\<close> clear. Such a call first reaches a state in which
  the flag is set, with the two attribute writes logged and nothing yet asked of the cloud
  API; a call of \<open>start_server\<close> made in that state is skipped. The rest of the call is
  the attempt run from that state: the requests of \<open>start_droplet\<close> (among them the
  power-on request), with no write to the flag in between, and the clearing of the flag
  last, for every result of \<open>start_droplet\<close>, an exception included. The flag is clear in
  the state left behind, and a further call from that state, in any world, is again an
  attempt: it is not skipped, sets the flag and queries the droplet.
\<close>

theorem start_server_guard:
  assumes "\<not> startup_in_progress m"
  shows "\<exists>m1 w1. start_server_enter m w = Some (m1, w1)
       \<and> startup_in_progress m1
       \<and> trace w1 = trace w @ [SetStartupInProgress True, SetServerReady False]
       \<and> api_n w1 = api_n w
       \<and> start_server m1 w1 = (Inr (), m1, w1)
       \<and> start_server m w = start_server_attempt m1 w1
       \<and> (\<exists>es. trace (snd (snd (start_server m w)))
              = trace w1 @ [Load] @ es @ [SetStartupInProgress False]
            \<and> set es \<subseteq> {Load, PowerOn} \<union> range Sleep)
       \<and> fst (snd (start_server m w)) = m1\<lparr>startup_in_progress := False\<rparr>
       \<and> \<not> startup_in_progress (fst (snd (start_server m w)))
       \<and> (\<forall>w2. start_server_enter (fst (snd (start_server m w))) w2 \<noteq> None
              \<and> (\<exists>es. trace (snd (snd (start_server (fst (snd (start_server m w))) w2)))
                    = trace w2 @ [SetStartupInProgress True, SetServerReady False, Load] @ es))"
proof -
  let ?m1 = "m\<lparr>startup_in_progress := True, server_ready := False\<rparr>"
  let ?w1 = "emit (SetServerReady False) (emit (SetStartupInProgress True) w)"
  have e: "start_server_enter m w = Some (?m1, ?w1)"
    using assms by (simp add: start_server_enter_def manager_defs)
  have s: "start_server m w = start_server_attempt ?m1 ?w1"
    using e by (simp add: start_server_halves)
  obtain r m' w' where a: "start_server_attempt ?m1 ?w1 = (r, m', w')"
    by (cases "start_server_attempt ?m1 ?w1")
  note c = start_server_attempt_clears [OF a]
  have g: "\<not> startup_in_progress m'" using c(1) by simp
  have retry: "start_server_enter m' w2 \<noteq> None
      \<and> (\<exists>es. trace (snd (snd (start_server m' w2)))
            = trace w2 @ [SetStartupInProgress True, SetServerReady False, Load] @ es)" for w2
  proof -
    obtain r2 m2 w3 where t: "start_server m' w2 = (r2, m2, w3)"
      by (cases "start_server m' w2")
    from start_server_run(2) [OF g t] t g show ?thesis
      by (auto simp: start_server_enter_def)
  qed
  have "startup_in_progress ?m1" by simp
  moreover have "trace ?w1 = trace w @ [SetStartupInProgress True, SetServerReady False]"
    by (simp add: emit_def)
  moreover have "api_n ?w1 = api_n w" by (simp add: emit_def)
  moreover have "start_server ?m1 ?w1 = (Inr (), ?m1, ?w1)" by (simp add: start_server_unfold)
  moreover have "\<exists>es. trace (snd (snd (start_server m w)))
              = trace ?w1 @ [Load] @ es @ [SetStartupInProgress False]
            \<and> set es \<subseteq> {Load, PowerOn} \<union> range Sleep"
    using c(2) s a by simp
  moreover have "fst (snd (start_server m w)) = ?m1\<lparr>startup_in_progress := False\<rparr>"
    using c(1) s a by simp
  moreover have "\<not> startup_in_progress (fst (snd (start_server m w)))"
    using g s a by simp
  moreover have "\<forall>w2. start_server_enter (fst (snd (start_server m w))) w2 \<noteq> None
      \<and> (\<exists>es. trace (snd (snd (start_server (fst (snd (start_server m w))) w2)))
            = trace w2 @ [SetStartupInProgress True, SetServerReady False, Load] @ es)"
    using retry s a by simp
  ultimately show ?thesis using e s by blast
qed

lemma power_on_fails_run:
  "start_server (init_manager 15) (script_world 0 (\<lambda>k. if k = 1 then None else Some ''off'') (\<lambda>k. None))
   = (Inr (), init_manager 15,
      (script_world 0 (\<lambda>k. if k = 1 then None else Some ''off'') (\<lambda>k. None))
        \<lparr>trace := [SetStartupInProgress True, SetServerReady False, Load, PowerOn,
                   SetStartupInProgress False], api_n := 2\<rparr>)"
  by (simp add: start_server_unfold world_defs manager_defs)

lemma power_on_fails_enter:
  "start_server_enter (init_manager 15)
      (script_world 0 (\<lambda>k. if k = 1 then None else Some ''off'') (\<lambda>k. None))
   = Some ((init_manager 15)\<lparr>startup_in_progress := True\<rparr>,
      (script_world 0 (\<lambda>k. if k = 1 then None else Some ''off'') (\<lambda>k. None))
        \<lparr>trace := [SetStartupInProgress True, SetServerReady False]\<rparr>)"
  by (simp add: start_server_enter_def world_defs manager_defs)

theorem start_server_guard_witness:
  "\<not> startup_in_progress (init_manager 15)
   \<and> start_server_enter (init_manager 15)
        (script_world 0 (\<lambda>k. if k = 1 then None else Some ''off'') (\<lambda>k. None))
     = Some ((init_manager 15)\<lparr>startup_in_progress := True\<rparr>,
        (script_world 0 (\<lambda>k. if k = 1 then None else Some ''off'') (\<lambda>k. None))
          \<lparr>trace := [SetStartupInProgress True, SetServerReady False]\<rparr>)
   \<and> startup_in_progress ((init_manager 15)\<lparr>startup_in_progress := True\<rparr>)
   \<and> trace (snd (snd (start_server (init_manager 15)
        (script_world 0 (\<lambda>k. if k = 1 then None else Some ''off'') (\<lambda>k. None)))))
     = [SetStartupInProgress True, SetServerReady False, Load, PowerOn, SetStartupInProgress False]
   \<and> \<not> startup_in_progress (fst (snd (start_server (init_manager 15)
        (script_world 0 (\<lambda>k. if k = 1 then None else Some ''off'') (\<lambda>k. None)))))"
proof -
  let ?w = "script_world 0 (\<lambda>k. if k = 1 then None else Some ''off'') (\<lambda>k. None)"
  have h: "\<not> startup_in_progress (init_manager 15)"
    by (simp add: init_manager_def)
  from start_server_guard [OF h, of ?w] obtain m1 w1 where
    e: "start_server_enter (init_manager 15) ?w = Some (m1, w1)"
    and f: "startup_in_progress m1"
    and c: "\<not> startup_in_progress (fst (snd (start_server (init_manager 15) ?w)))"
    by blast
  from e have m1: "m1 = (init_manager 15)\<lparr>startup_in_progress := True\<rparr>"
    unfolding power_on_fails_enter by simp
  have t: "trace (snd (snd (start_server (init_manager 15) ?w)))
     = [SetStartupInProgress True, SetServerReady False, Load, PowerOn, SetStartupInProgress False]"
    unfolding power_on_fails_run by simp
  from h f c m1 t power_on_fails_enter show ?thesis by blast
qed

lemma tick_branches:
  "(api w (api_n w) = None \<longrightarrow>
      fst (check_inactivity m w) = Inl ApiError
      \<and> fst (snd (check_inactivity m w)) = m)
   \<and> (api w (api_n w) = Some s \<and> s \<noteq> ''active'' \<longrightarrow>
      fst (check_inactivity m w) = Inr DropletNotRunning
      \<and> fst (snd (check_inactivity m w)) = m\<lparr>server_ready := False\<rparr>)
   \<and> (api w (api_n w) = Some ''active'' \<longrightarrow>
        (get_active_connections (tcp_proxy m) > 0 \<longrightarrow>
           fst (check_inactivity m w) = Inr ConnectionsActive
           \<and> fst (snd (check_inactivity m w)) = m\<lparr>last_activity_time := Some (clock w)\<rparr>)
      \<and> (\<not> get_active_connections (tcp_proxy m) > 0 \<longrightarrow>
           (mc w (mc_n w) = None \<longrightarrow>
              fst (check_inactivity m w) = Inr ServerNotResponding
              \<and> fst (snd (check_inactivity m w)) = m)
         \<and> (mc w (mc_n w) = Some n \<longrightarrow>
              (mc w (Suc (mc_n w)) = None \<longrightarrow>
                 fst (check_inactivity m w) = Inr PlayerCountUnknown
                 \<and> fst (snd (check_inactivity m w)) = m)
            \<and> (mc w (Suc (mc_n w)) = Some p \<longrightarrow>
                 (p > 0 \<longrightarrow>
                    fst (check_inactivity m w) = Inr PlayersOnline
                    \<and> fst (snd (check_inactivity m w)) = m\<lparr>last_activity_time := Some (clock w)\<rparr>)
               \<and> (\<not> p > 0 \<longrightarrow>
                    (last_activity_time m = None \<longrightarrow>
                       fst (check_inactivity m w) = Inr TimerStarted
                       \<and> fst (snd (check_inactivity m w))
                           = m\<lparr>last_activity_time := Some (clock w)\<rparr>)
                  \<and> (last_activity_time m = Some t \<longrightarrow>
                       (\<not> timedelta_ok (60 * inactivity_timeout m) \<longrightarrow>
                          fst (check_inactivity m w) = Inl OverflowError
                          \<and> fst (snd (check_inactivity m w)) = m)
                     \<and> (timedelta_ok (60 * inactivity_timeout m) \<longrightarrow>
                          (clock w - t \<ge> 60 * inactivity_timeout m \<longrightarrow>
                             (api w (Suc (api_n w)) = None \<longrightarrow>
                                fst (check_inactivity m w) = Inl ApiError
                                \<and> fst (snd (check_inactivity m w)) = m)
                           \<and> (api w (Suc (api_n w)) = Some st \<longrightarrow>
                                fst (check_inactivity m w) = Inr ShutDown
                                \<and> fst (snd (check_inactivity m w))
                                    = m\<lparr>last_activity_time := None, server_ready := False\<rparr>
                                \<and> trace (snd (snd (check_inactivity m w)))
                                    = trace w @ [Load, McStatus, McStatus, Load]
                                        @ (if st = ''off'' then [] else [Shutdown])
                                        @ [SetLastActivity None, SetServerReady False]))
                        \<and> (clock w - t < 60 * inactivity_timeout m \<longrightarrow>
                             (timedelta_ok (60 * inactivity_timeout m - (clock w - t)) \<longrightarrow>
                                fst (check_inactivity m w)
                                  = Inr (StillIdle (60 * inactivity_timeout m - (clock w - t)))
                                \<and> fst (snd (check_inactivity m w)) = m)
                           \<and> (\<not> timedelta_ok (60 * inactivity_timeout m - (clock w - t)) \<longrightarrow>
                                fst (check_inactivity m w) = Inl OverflowError
                                \<and> fst (snd (check_inactivity m w)) = m)))))))))"
  by (simp add: check_inactivity_def world_defs manager_defs timedelta_def split: option.splits)

lemma tick_no_shutdown:
  assumes "fst (check_inactivity m w) \<noteq> Inr ShutDown"
  shows "adds (- {Shutdown, PowerOn}) w (snd (snd (check_inactivity m w)))"
proof -
  let ?S = "- {Shutdown, PowerOn}"
  obtain x1 y1 where i: "is_running w = (x1, y1)" by (cases "is_running w")
  have a1: "adds ?S w y1" using i by (rule adds_is_running) simp
  obtain x2 y2 where o: "is_server_online y1 = (x2, y2)" by (cases "is_server_online y1")
  have a2: "adds ?S y1 y2" using o by (rule adds_is_server_online) simp
  obtain x3 y3 where g: "mc_status y2 = (x3, y3)" by (cases "mc_status y2")
  have a3: "adds ?S y2 y3" using g by (rule adds_mc_status) simp
  obtain x4 y4 where l: "load y3 = (x4, y4)" by (cases "load y3")
  have a4: "adds ?S y3 y4" using l by (rule adds_load) simp
  have e: "adds ?S v (emit (SetLastActivity a) v)" "adds ?S v (emit (SetServerReady b) v)"
    for v a b by (auto intro: adds_emit)
  obtain r m' w' where c: "check_inactivity m w = (r, m', w')"
    by (cases "check_inactivity m w")
  with assms have "r \<noteq> Inr ShutDown" by simp
  with c i o g l have "w' = y1 \<or> w' = emit (SetServerReady False) y1
      \<or> w' = emit (SetLastActivity (Some (clock y1))) y1 \<or> w' = y2 \<or> w' = y3
      \<or> w' = emit (SetLastActivity (Some (clock y3))) y3 \<or> w' = y4"
    by (auto simp: check_inactivity_def manager_defs get_player_count_def stop_droplet_def
        timedelta_def split: sum.splits bool.splits option.splits if_splits prod.splits)
  moreover have "adds ?S w y2" using a1 a2 by (rule adds_trans)
  moreover have "adds ?S w y3" using \<open>adds ?S w y2\<close> a3 by (rule adds_trans)
  moreover have "adds ?S w y4" using \<open>adds ?S w y3\<close> a4 by (rule adds_trans)
  moreover have "adds ?S w (emit (SetServerReady False) y1)"
    using a1 e(2) by (rule adds_trans)
  moreover have "adds ?S w (emit (SetLastActivity (Some (clock y1))) y1)"
    using a1 e(1) by (rule adds_trans)
  moreover have "adds ?S w (emit (SetLastActivity (Some (clock y3))) y3)"
    using \<open>adds ?S w y3\<close> e(1) by (rule adds_trans)
  ultimately show ?thesis using a1 c by auto
qed

text \<open>
  C3, as amended. The decision of a tick, in the order of the tests of
  \<open>check_inactivity\<close>. What gates the evaluation is the tick's own status query of the
  droplet; the flag \<open>server_ready\<close> is not consulted. The replies of the game server
  are those to the tick's first and second status request.

  \<^enum> The status query raises: the tick raises, the state is kept. The droplet is reported
    not running: \<open>DropletNotRunning\<close>, nothing is evaluated (and \<open>server_ready\<close> is
    cleared).
  \<^enum> Else the connection count is positive: \<open>ConnectionsActive\<close>, activity is recorded.
  \<^enum> Else the game server does not answer: \<open>ServerNotResponding\<close>, the state is kept.
  \<^enum> Else the player count is unknown: \<open>PlayerCountUnknown\<close>, the state is kept; or it
    is positive: \<open>PlayersOnline\<close>, activity is recorded.
  \<^enum> Else, with no player and \<open>last_activity_time\<close> None: \<open>TimerStarted\<close>, the
    timer starts now.
  \<^enum> Else, with a timeout that a \<^verbatim>\<open>timedelta\<close> can hold: when the time since
    \<open>last_activity_time\<close> has reached the timeout, \<open>stop_droplet\<close> runs (it sends the
    shutdown request unless the droplet already reports off), \<open>last_activity_time\<close> and
    \<open>server_ready\<close> are cleared, and the decision is \<open>ShutDown\<close>, unless the status
    query of \<open>stop_droplet\<close> raises: then the tick raises and the state is kept.
    Otherwise the decision is \<open>StillIdle\<close> with the remaining time, the state kept. A
    timeout or a remaining time out of the range of \<^verbatim>\<open>timedelta\<close> makes the tick
    raise \<open>OverflowError\<close>.

  The first five decisions are the ones in which no action is taken. Whenever the decision
  is not \<open>ShutDown\<close>, no shutdown request was sent.
\<close>

theorem check_inactivity_priority:
  "(fst (check_inactivity m w) \<noteq> Inr ShutDown \<longrightarrow>
      adds (- {Shutdown, PowerOn}) w (snd (snd (check_inactivity m w))))
   \<and> ((api w (api_n w) = None \<longrightarrow>
      fst (check_inactivity m w) = Inl ApiError
      \<and> fst (snd (check_inactivity m w)) = m)
   \<and> (api w (api_n w) = Some s \<and> s \<noteq> ''active'' \<longrightarrow>
      fst (check_inactivity m w) = Inr DropletNotRunning
      \<and> fst (snd (check_inactivity m w)) = m\<lparr>server_ready := False\<rparr>)
   \<and> (api w (api_n w) = Some ''active'' \<longrightarrow>
        (get_active_connections (tcp_proxy m) > 0 \<longrightarrow>
           fst (check_inactivity m w) = Inr ConnectionsActive
           \<and> fst (snd (check_inactivity m w)) = m\<lparr>last_activity_time := Some (clock w)\<rparr>)
      \<and> (\<not> get_active_connections (tcp_proxy m) > 0 \<longrightarrow>
           (mc w (mc_n w) = None \<longrightarrow>
              fst (check_inactivity m w) = Inr ServerNotResponding
              \<and> fst (snd (check_inactivity m w)) = m)
         \<and> (mc w (mc_n w) = Some n \<longrightarrow>
              (mc w (Suc (mc_n w)) = None \<longrightarrow>
                 fst (check_inactivity m w) = Inr PlayerCountUnknown
                 \<and> fst (snd (check_inactivity m w)) = m)
            \<and> (mc w (Suc (mc_n w)) = Some p \<longrightarrow>
                 (p > 0 \<longrightarrow>
                    fst (check_inactivity m w) = Inr PlayersOnline
                    \<and> fst (snd (check_inactivity m w)) = m\<lparr>last_activity_time := Some (clock w)\<rparr>)
               \<and> (\<not> p > 0 \<longrightarrow>
                    (last_activity_time m = None \<longrightarrow>
                       fst (check_inactivity m w) = Inr TimerStarted
                       \<and> fst (snd (check_inactivity m w))
                           = m\<lparr>last_activity_time := Some (clock w)\<rparr>)
                  \<and> (last_activity_time m = Some t \<longrightarrow>
                       (\<not> timedelta_ok (60 * inactivity_timeout m) \<longrightarrow>
                          fst (check_inactivity m w) = Inl OverflowError
                          \<and> fst (snd (check_inactivity m w)) = m)
                     \<and> (timedelta_ok (60 * inactivity_timeout m) \<longrightarrow>
                          (clock w - t \<ge> 60 * inactivity_timeout m \<longrightarrow>
                             (api w (Suc (api_n w)) = None \<longrightarrow>
                                fst (check_inactivity m w) = Inl ApiError
                                \<and> fst (snd (check_inactivity m w)) = m)
                           \<and> (api w (Suc (api_n w)) = Some st \<longrightarrow>
                                fst (check_inactivity m w) = Inr ShutDown
                                \<and> fst (snd (check_inactivity m w))
                                    = m\<lparr>last_activity_time := None, server_ready := False\<rparr>
                                \<and> trace (snd (snd (check_inactivity m w)))
                                    = trace w @ [Load, McStatus, McStatus, Load]
                                        @ (if st = ''off'' then [] else [Shutdown])
                                        @ [SetLastActivity None, SetServerReady False]))
                        \<and> (clock w - t < 60 * inactivity_timeout m \<longrightarrow>
                             (timedelta_ok (60 * inactivity_timeout m - (clock w - t)) \<longrightarrow>
                                fst (check_inactivity m w)
                                  = Inr (StillIdle (60 * inactivity_timeout m - (clock w - t)))
                                \<and> fst (snd (check_inactivity m w)) = m)
                           \<and> (\<not> timedelta_ok (60 * inactivity_timeout m - (clock w - t)) \<longrightarrow>
                                fst (check_inactivity m w) = Inl OverflowError
                                \<and> fst (snd (check_inactivity m w)) = m))))))))))"
proof (rule conjI)
  show "fst (check_inactivity m w) \<noteq> Inr ShutDown \<longrightarrow>
      adds (- {Shutdown, PowerOn}) w (snd (snd (check_inactivity m w)))"
    using tick_no_shutdown by blast
  show "(api w (api_n w) = None \<longrightarrow>
      fst (check_inactivity m w) = Inl ApiError
      \<and> fst (snd (check_inactivity m w)) = m)
   \<and> (api w (api_n w) = Some s \<and> s \<noteq> ''active'' \<longrightarrow>
      fst (check_inactivity m w) = Inr DropletNotRunning
      \<and> fst (snd (check_inactivity m w)) = m\<lparr>server_ready := False\<rparr>)
   \<and> (api w (api_n w) = Some ''active'' \<longrightarrow>
        (get_active_connections (tcp_proxy m) > 0 \<longrightarrow>
           fst (check_inactivity m w) = Inr ConnectionsActive
           \<and> fst (snd (check_inactivity m w)) = m\<lparr>last_activity_time := Some (clock w)\<rparr>)
      \<and> (\<not> get_active_connections (tcp_proxy m) > 0 \<longrightarrow>
           (mc w (mc_n w) = None \<longrightarrow>
              fst (check_inactivity m w) = Inr ServerNotResponding
              \<and> fst (snd (check_inactivity m w)) = m)
         \<and> (mc w (mc_n w) = Some n \<longrightarrow>
              (mc w (Suc (mc_n w)) = None \<longrightarrow>
                 fst (check_inactivity m w) = Inr PlayerCountUnknown
                 \<and> fst (snd (check_inactivity m w)) = m)
            \<and> (mc w (Suc (mc_n w)) = Some p \<longrightarrow>
                 (p > 0 \<longrightarrow>
                    fst (check_inactivity m w) = Inr PlayersOnline
                    \<and> fst (snd (check_inactivity m w)) = m\<lparr>last_activity_time := Some (clock w)\<rparr>)
               \<and> (\<not> p > 0 \<longrightarrow>
                    (last_activity_time m = None \<longrightarrow>
                       fst (check_inactivity m w) = Inr TimerStarted
                       \<and> fst (snd (check_inactivity m w))
                           = m\<lparr>last_activity_time := Some (clock w)\<rparr>)
                  \<and> (last_activity_time m = Some t \<longrightarrow>
                       (\<not> timedelta_ok (60 * inactivity_timeout m) \<longrightarrow>
                          fst (check_inactivity m w) = Inl OverflowError
                          \<and> fst (snd (check_inactivity m w)) = m)
                     \<and> (timedelta_ok (60 * inactivity_timeout m) \<longrightarrow>
                          (clock w - t \<ge> 60 * inactivity_timeout m \<longrightarrow>
                             (api w (Suc (api_n w)) = None \<longrightarrow>
                                fst (check_inactivity m w) = Inl ApiError
                                \<and> fst (snd (check_inactivity m w)) = m)
                           \<and> (api w (Suc (api_n w)) = Some st \<longrightarrow>
                                fst (check_inactivity m w) = Inr ShutDown
                                \<and> fst (snd (check_inactivity m w))
                                    = m\<lparr>last_activity_time := None, server_ready := False\<rparr>
                                \<and> trace (snd (snd (check_inactivity m w)))
                                    = trace w @ [Load, McStatus, McStatus, Load]
                                        @ (if st = ''off'' then [] else [Shutdown])
                                        @ [SetLastActivity None, SetServerReady False]))
                        \<and> (clock w - t < 60 * inactivity_timeout m \<longrightarrow>
                             (timedelta_ok (60 * inactivity_timeout m - (clock w - t)) \<longrightarrow>
                                fst (check_inactivity m w)
                                  = Inr (StillIdle (60 * inactivity_timeout m - (clock w - t)))
                                \<and> fst (snd (check_inactivity m w)) = m)
                           \<and> (\<not> timedelta_ok (60 * inactivity_timeout m - (clock w - t)) \<longrightarrow>
                                fst (check_inactivity m w) = Inl OverflowError
                                \<and> fst (snd (check_inactivity m w)) = m)))))))))"
    by (rule tick_branches)
qed

theorem check_inactivity_priority_witness:
  "fst (check_inactivity (idle_since 0) (script_world 1000 always_active nobody_online))
     = Inr ShutDown
   \<and> fst (snd (check_inactivity (idle_since 0) (script_world 1000 always_active nobody_online)))
     = (idle_since 0)\<lparr>last_activity_time := None, server_ready := False\<rparr>
   \<and> trace (snd (snd (check_inactivity (idle_since 0)
         (script_world 1000 always_active nobody_online))))
     = [Load, McStatus, McStatus, Load, Shutdown, SetLastActivity None, SetServerReady False]
   \<and> fst (check_inactivity (idle_since 900) (script_world 1000 always_active nobody_online))
     = Inr (StillIdle 800)
   \<and> adds (- {Shutdown, PowerOn}) (script_world 1000 always_active nobody_online)
        (snd (snd (check_inactivity (idle_since 900)
           (script_world 1000 always_active nobody_online))))"
proof -
  let ?w = "script_world 1000 always_active nobody_online"
  have w: "api ?w (api_n ?w) = Some ''active''" "api ?w (Suc (api_n ?w)) = Some ''active''"
    "mc ?w (mc_n ?w) = Some 0" "mc ?w (Suc (mc_n ?w)) = Some 0" "clock ?w = 1000"
    "trace ?w = []"
    by (simp_all add: script_world_def always_active_def nobody_online_def)
  have m: "\<not> get_active_connections (tcp_proxy (idle_since t)) > 0"
    "last_activity_time (idle_since t) = Some t" "inactivity_timeout (idle_since t) = 15" for t
    by (simp_all add: idle_since_def manager_defs)
  have d: "timedelta_ok (60 * 15)" "timedelta_ok (60 * 15 - (1000 - 900))"
    by (simp_all add: timedelta_ok_def)
  note a = check_inactivity_priority [where w = ?w and m = "idle_since 0" and n = 0 and p = 0
      and t = 0 and st = "''active''"]
  note b = check_inactivity_priority [where w = ?w and m = "idle_since 900" and n = 0 and p = 0
      and t = 900]
  from a w m [of 0] d have 1: "fst (check_inactivity (idle_since 0) ?w) = Inr ShutDown
      \<and> fst (snd (check_inactivity (idle_since 0) ?w))
        = (idle_since 0)\<lparr>last_activity_time := None, server_ready := False\<rparr>
      \<and> trace (snd (snd (check_inactivity (idle_since 0) ?w)))
        = [Load, McStatus, McStatus, Load, Shutdown, SetLastActivity None, SetServerReady False]"
    by simp
  from b w m [of 900] d have 2: "fst (check_inactivity (idle_since 900) ?w) = Inr (StillIdle 800)"
    by simp
  with b have 3: "adds (- {Shutdown, PowerOn}) ?w (snd (snd (check_inactivity (idle_since 900) ?w)))"
    by simp
  from 1 2 3 show ?thesis by simp
qed

text \<open>
  C3 as stated fails in its first step. The manager has never seen the game server ready
  (\<open>server_ready\<close> is clear, as after a start from the dashboard), the droplet is active,
  nobody is connected or online, and the last activity is 1000 seconds old with a timeout
  of 15 minutes: the tick does not stop at "not ready", it shuts the droplet down.
\<close>

theorem tick_ignores_server_ready_counterexample:
  "\<not> server_ready (idle_since 0)
   \<and> fst (check_inactivity (idle_since 0) (script_world 1000 always_active nobody_online))
       = Inr ShutDown
   \<and> trace (snd (snd (check_inactivity (idle_since 0)
        (script_world 1000 always_active nobody_online))))
       = [Load, McStatus, McStatus, Load, Shutdown, SetLastActivity None, SetServerReady False]"
  by (simp add: check_inactivity_def world_defs manager_defs idle_since_def always_active_def
      nobody_online_def timedelta_def timedelta_ok_def)







lemma steps_left_step:
  "position t \<noteq> Finished \<Longrightarrow>
     steps_left (position (fst (handle_connection_step out t p))) < steps_left (position t)"
  by (cases "position t"; cases out; simp)

lemma steps_left_Finished: "steps_left x = 0 \<longleftrightarrow> x = Finished"
  by (cases x) simp_all

lemma run_session_steps:
  "steps_left (position (fst (run_session outs t p))) \<le> steps_left (position t) - length outs"
proof (induction outs arbitrary: t p)
  case Nil
  then show ?case by simp
next
  case (Cons out outs)
  obtain t1 p1 where h: "handle_connection_step out t p = (t1, p1)"
    by (cases "handle_connection_step out t p")
  show ?case
  proof (cases "position t = Finished")
    case True
    with h have "t1 = t" by simp
    with h True Cons.IH [of t1 p1] show ?thesis by simp
  next
    case False
    from steps_left_step [OF False, of out p] h
    have "steps_left (position t1) < steps_left (position t)" by simp
    with h Cons.IH [of t1 p1] show ?thesis by simp
  qed
qed

lemma step_proxy_fields:
  "handle_connection_step out t p = (t1, p1) \<Longrightarrow>
     p1 = p\<lparr>active_connections := active_connections p1\<rparr>"
  by (cases "position t"; cases out; auto)

lemma run_session_effect:
  assumes "session_ok t"
  shows "session_ok (fst (run_session outs t p))
     \<and> snd (run_session outs t p)
         = p\<lparr>active_connections := active_connections p
               + flying (fst (run_session outs t p)) - flying t\<rparr>"
  using assms
proof (induction outs arbitrary: t p)
  case Nil
  then show ?case by simp
next
  case (Cons out outs)
  obtain t1 p1 where h: "handle_connection_step out t p = (t1, p1)"
    by (cases "handle_connection_step out t p")
  note e = step_effect [OF Cons.prems h]
  have p1: "p1 = p\<lparr>active_connections := active_connections p + flying t1 - flying t\<rparr>"
    using step_proxy_fields [OF h] e(2) by simp
  from Cons.IH [OF e(1), of p1] h p1 show ?case by simp
qed

lemma session_runs_to_end:
  assumes "6 \<le> length outs"
  shows "position (fst (run_session outs new_session p)) = Finished
     \<and> snd (run_session outs new_session p) = p
     \<and> increments (fst (run_session outs new_session p)) = 1
     \<and> decrements (fst (run_session outs new_session p)) = 1
     \<and> client_socket (fst (run_session outs new_session p)) = Closed
     \<and> server_socket (fst (run_session outs new_session p)) \<noteq> Open"
proof -
  let ?t = "fst (run_session outs new_session p)"
  have "steps_left (position ?t) \<le> steps_left (position new_session) - length outs"
    by (rule run_session_steps)
  with assms have f: "position ?t = Finished"
    by (simp add: new_session_def steps_left_Finished [symmetric])
  have ok: "session_ok new_session" by (simp add: session_ok_def new_session_def)
  note e = run_session_effect [OF ok, of outs p]
  from e f have "snd (run_session outs new_session p) = p"
    by (simp add: flying_def in_flight_def new_session_def)
  with e f show ?thesis by (simp add: session_ok_def)
qed

lemma scheduled_step_progress:
  assumes "i < length (sessions s)" and "position (sessions s ! i) \<noteq> Finished"
  shows "steps_left (position (sessions (schedule_step (Step i out) s) ! i))
     < steps_left (position (sessions s ! i))"
proof -
  obtain t1 p1 where h: "handle_connection_step out (sessions s ! i) (proxy s) = (t1, p1)"
    by (cases "handle_connection_step out (sessions s ! i) (proxy s)")
  from steps_left_step [OF assms(2), of out "proxy s"] h assms(1) show ?thesis by simp
qed

text \<open>
  C2, as amended. Whatever threads the listener starts and however their steps interleave,
  at every point the counter equals the number of sessions in flight, those whose handler
  has made its increment and not yet its decrement, so it is never negative. Every
  session past its entry has incremented the counter exactly once, a session has
  decremented it exactly once when it has finished and not before, and from the moment a
  session stands at its decrement its client socket is closed and its backend socket is
  closed or was never created. Every exit path ends in the decrement: each step of an
  unfinished session brings it nearer its end, whatever the outcome of the step (the
  callback returning False or raising, \<^verbatim>\<open>connect\<close> failing, the relay ending), and a
  session run for six steps has finished, with the counter back where it was.
\<close>

theorem counter_counts_sessions:
  "get_active_connections (proxy (run_schedule cs new_system))
     = int (length (filter in_flight (sessions (run_schedule cs new_system))))
   \<and> 0 \<le> get_active_connections (proxy (run_schedule cs new_system))
   \<and> (\<forall>t \<in> set (sessions (run_schedule cs new_system)).
        increments t = (if position t = AtEntry then 0 else 1)
        \<and> decrements t = (if position t = Finished then 1 else 0)
        \<and> (position t = AtDecrement \<or> position t = Finished \<longrightarrow>
             client_socket t = Closed \<and> server_socket t \<noteq> Open))
   \<and> (\<forall>i < length (sessions (run_schedule cs new_system)).
        position (sessions (run_schedule cs new_system) ! i) \<noteq> Finished \<longrightarrow>
        steps_left (position
            (sessions (schedule_step (Step i out) (run_schedule cs new_system)) ! i))
          < steps_left (position (sessions (run_schedule cs new_system) ! i)))
   \<and> (6 \<le> length outs \<longrightarrow>
        position (fst (run_session outs new_session p)) = Finished
        \<and> snd (run_session outs new_session p) = p
        \<and> increments (fst (run_session outs new_session p)) = 1
        \<and> decrements (fst (run_session outs new_session p)) = 1
        \<and> client_socket (fst (run_session outs new_session p)) = Closed
        \<and> server_socket (fst (run_session outs new_session p)) \<noteq> Open)"
proof -
  have "system_ok (run_schedule cs new_system)"
    using system_ok_new by (rule system_ok_run)
  then have "get_active_connections (proxy (run_schedule cs new_system))
     = int (length (filter in_flight (sessions (run_schedule cs new_system))))
   \<and> 0 \<le> get_active_connections (proxy (run_schedule cs new_system))
   \<and> (\<forall>t \<in> set (sessions (run_schedule cs new_system)).
        increments t = (if position t = AtEntry then 0 else 1)
        \<and> decrements t = (if position t = Finished then 1 else 0)
        \<and> (position t = AtDecrement \<or> position t = Finished \<longrightarrow>
             client_socket t = Closed \<and> server_socket t \<noteq> Open))"
    by (simp add: system_ok_def session_ok_def get_active_connections_def)
  then show ?thesis
    using scheduled_step_progress [of _ "run_schedule cs new_system" out]
      session_runs_to_end [of outs p]
    by blast
qed

lemma two_sessions_run:
  "sessions (run_schedule two_sessions new_system)
     = [\<lparr>position = Finished, client_socket = Closed, server_socket = NotCreated,
          increments = 1, decrements = 1\<rparr>,
        \<lparr>position = AtRelay, client_socket = Open, server_socket = Open,
          increments = 1, decrements = 0\<rparr>]"
  by (simp add: two_sessions_def new_system_def new_proxy_def new_session_def close_socket_def)

theorem counter_counts_sessions_witness:
  "get_active_connections (proxy (run_schedule two_sessions new_system)) = 1
   \<and> sessions (run_schedule two_sessions new_system)
     = [\<lparr>position = Finished, client_socket = Closed, server_socket = NotCreated,
          increments = 1, decrements = 1\<rparr>,
        \<lparr>position = AtRelay, client_socket = Open, server_socket = Open,
          increments = 1, decrements = 0\<rparr>]
   \<and> steps_left (position (sessions (schedule_step (Step 1 Raises)
          (run_schedule two_sessions new_system)) ! 1)) < 3
   \<and> run_session [Succeeds, Succeeds, Refuses, Succeeds, Succeeds, Succeeds] new_session new_proxy
     = (\<lparr>position = Finished, client_socket = Closed, server_socket = Closed,
          increments = 1, decrements = 1\<rparr>, new_proxy)"
proof -
  note t = counter_counts_sessions [of two_sessions Raises
      "[Succeeds, Succeeds, Refuses, Succeeds, Succeeds, Succeeds]" new_proxy]
  from t have "get_active_connections (proxy (run_schedule two_sessions new_system))
      = int (length (filter in_flight (sessions (run_schedule two_sessions new_system))))"
    by blast
  then have 1: "get_active_connections (proxy (run_schedule two_sessions new_system)) = 1"
    unfolding two_sessions_run by (simp add: in_flight_def)
  have "1 < length (sessions (run_schedule two_sessions new_system))"
    "position (sessions (run_schedule two_sessions new_system) ! 1) \<noteq> Finished"
    "steps_left (position (sessions (run_schedule two_sessions new_system) ! 1)) = 3"
    unfolding two_sessions_run by simp_all
  with t have 2: "steps_left (position (sessions (schedule_step (Step 1 Raises)
          (run_schedule two_sessions new_system)) ! 1)) < 3"
    by metis
  have "(6::nat) \<le> length [Succeeds, Succeeds, Refuses, Succeeds, Succeeds, Succeeds]" by simp
  with t have "snd (run_session [Succeeds, Succeeds, Refuses, Succeeds, Succeeds, Succeeds]
      new_session new_proxy) = new_proxy"
    by blast
  moreover have "fst (run_session [Succeeds, Succeeds, Refuses, Succeeds, Succeeds, Succeeds]
      new_session new_proxy)
    = \<lparr>position = Finished, client_socket = Closed, server_socket = Closed,
          increments = 1, decrements = 1\<rparr>"
    by (simp add: new_session_def close_socket_def)
  ultimately have 3: "run_session [Succeeds, Succeeds, Refuses, Succeeds, Succeeds, Succeeds]
      new_session new_proxy
     = (\<lparr>position = Finished, client_socket = Closed, server_socket = Closed,
          increments = 1, decrements = 1\<rparr>, new_proxy)"
    by (simp add: prod_eq_iff)
  from 1 2 3 two_sessions_run show ?thesis by blast
qed

text \<open>
  C2 as stated fails. After the accept of a connection and the start of its thread, and
  before the thread has run its first statement, one session is accepted and open and the
  counter is 0.
\<close>

theorem accepted_session_not_counted_counterexample:
  "accepted_open (run_schedule [Spawn] new_system) = 1
   \<and> map client_socket (sessions (run_schedule [Spawn] new_system)) = [Open]
   \<and> get_active_connections (proxy (run_schedule [Spawn] new_system)) = 0"
  by (simp add: accepted_open_def new_system_def new_session_def new_proxy_def
      get_active_connections_def)

end
